theory Spec2Isabelle
  imports Complex_Main
begin

section \<open>Gear train simulator: data model\<close>

text \<open>
  The development embeds the gear dimensions of \<^verbatim>\<open>GearGeometry.js\<close> and the
  connectivity and kinematics methods of the class \<^verbatim>\<open>GearSimulator\<close>
  (\<^verbatim>\<open>GearSimulator.js\<close>). JavaScript numbers are idealised as mathematical
  numbers: a tooth count read by \<^verbatim>\<open>parseInt\<close> is an \<^typ>\<open>int\<close>, every other number a
  \<^typ>\<open>real\<close>; rounding and \<^verbatim>\<open>NaN\<close> are outside the model. Gear objects are shared
  by reference in the source; here a reference is the gear's \<^verbatim>\<open>id\<close>, which the
  simulator hands out from a counter and never reuses. The scene graph, materials,
  colours, sounds and message panels are not modelled.
\<close>

text \<open>The parameter object handed to \<^verbatim>\<open>new GearGeometry(params)\<close>.\<close>

record gear_spec =
  teeth :: int
  module :: real
  pressureAngle :: real
  thickness :: real
  boreDiameter :: real

text \<open>The fields the constructor of \<^verbatim>\<open>GearGeometry\<close> computes.\<close>

record gear_geometry =
  geo_teeth :: int
  geo_module :: real
  geo_pressureAngle :: real
  geo_thickness :: real
  geo_boreDiameter :: real
  geo_pitchDiameter :: real
  pitchRadius :: real
  baseRadius :: real
  addendum :: real
  dedendum :: real
  outerRadius :: real
  rootRadius :: real
  boreRadius :: real

text \<open>\<^verbatim>\<open>x || d\<close> on numbers: zero is falsy and yields the default.\<close>

definition or_default_int :: "int \<Rightarrow> int \<Rightarrow> int" where
  "or_default_int x d = (if x = 0 then d else x)"

definition or_default :: "real \<Rightarrow> real \<Rightarrow> real" where
  "or_default x d = (if x = 0 then d else x)"

definition GearGeometry :: "gear_spec \<Rightarrow> gear_geometry" where
  "GearGeometry p =
    (let t = or_default_int (teeth p) 20;
         m = or_default (module p) 2;
         pa = or_default (pressureAngle p) 20 * pi / 180;
         th = or_default (thickness p) 5;
         bd = or_default (boreDiameter p) 5;
         pd = real_of_int t * m;
         pr = pd / 2;
         ded = 1.25 * m;
         rr = pr - ded;
         br = bd / 2
     in \<lparr> geo_teeth = t, geo_module = m, geo_pressureAngle = pa, geo_thickness = th,
          geo_boreDiameter = bd, geo_pitchDiameter = pd, pitchRadius = pr,
          baseRadius = pr * cos pa, addendum = m, dedendum = ded,
          outerRadius = pr + m, rootRadius = rr,
          boreRadius = (if br \<ge> rr then rr * 0.5 else br) \<rparr>)"

text \<open>The ranges the documentation of \<^verbatim>\<open>GearGeometry\<close> and the validation of
  \<^verbatim>\<open>updateSelectedGearParams\<close> name.\<close>

definition valid_spec :: "gear_spec \<Rightarrow> bool" where
  "valid_spec p \<longleftrightarrow>
     8 \<le> teeth p \<and> teeth p \<le> 100 \<and>
     0.5 \<le> module p \<and> module p \<le> 10 \<and>
     14.5 \<le> pressureAngle p \<and> pressureAngle p \<le> 25 \<and>
     1 \<le> thickness p \<and> thickness p \<le> 20 \<and>
     1 \<le> boreDiameter p \<and> boreDiameter p \<le> 20"

text \<open>\<^verbatim>\<open>mesh.position\<close>, a \<^verbatim>\<open>THREE.Vector3\<close>.\<close>

record vec3 =
  pos_x :: real
  pos_y :: real
  pos_z :: real

text \<open>The \<^verbatim>\<open>params\<close> object stored on a gear: the five parameters and the pitch
  diameter taken from the geometry.\<close>

record gear_params = gear_spec +
  pitchDiameter :: real

text \<open>A gear object as \<^verbatim>\<open>addGear\<close> creates it. \<^verbatim>\<open>connectedTo\<close> and
  \<^verbatim>\<open>incompatibleWith\<close> hold references to gears, here their ids.\<close>

record gear =
  gid :: nat
  position :: vec3
  params :: gear_params
  rpm :: real
  rotationDirection :: int
  connectedTo :: "nat list"
  isDriver :: bool
  incompatibleWith :: "nat option"
  jammingError :: bool
  overlapError :: bool

text \<open>The fields of \<^verbatim>\<open>GearSimulator\<close> the engine reads and writes.\<close>

record simulator =
  gears :: "gear list"
  selectedGear :: "nat option"
  isPlaying :: bool
  inputRPM :: real
  nextGearId :: nat

definition initial_simulator :: simulator where
  "initial_simulator =
     \<lparr> gears = [], selectedGear = None, isPlaying = False, inputRPM = 30, nextGearId = 1 \<rparr>"

text \<open>Dereferencing: the gear of the registry with a given id, and a write to it.\<close>

definition lookup_gear :: "gear list \<Rightarrow> nat \<Rightarrow> gear option" where
  "lookup_gear gs i = find (\<lambda>g. gid g = i) gs"

definition update_gear :: "nat \<Rightarrow> (gear \<Rightarrow> gear) \<Rightarrow> gear list \<Rightarrow> gear list" where
  "update_gear i f gs = map (\<lambda>g. if gid g = i then f g else g) gs"

subsection \<open>Pairwise tests\<close>

definition distanceTo :: "vec3 \<Rightarrow> vec3 \<Rightarrow> real" where
  "distanceTo p q =
     sqrt ((pos_x p - pos_x q)\<^sup>2 + (pos_y p - pos_y q)\<^sup>2 + (pos_z p - pos_z q)\<^sup>2)"

definition idealDistance :: "gear \<Rightarrow> gear \<Rightarrow> real" where
  "idealDistance gear1 gear2 =
     (pitchDiameter (params gear1) + pitchDiameter (params gear2)) / 2"

definition currentDistance :: "gear \<Rightarrow> gear \<Rightarrow> real" where
  "currentDistance gear1 gear2 = distanceTo (position gear1) (position gear2)"

definition checkGearsOverlap :: "gear \<Rightarrow> gear \<Rightarrow> bool" where
  "checkGearsOverlap gear1 gear2 =
     (let overlapThreshold = idealDistance gear1 gear2 * 0.9
      in currentDistance gear1 gear2 < overlapThreshold)"

definition areGearsCompatible :: "gear \<Rightarrow> gear \<Rightarrow> bool" where
  "areGearsCompatible gear1 gear2 =
     (\<bar>module (params gear1) - module (params gear2)\<bar> < 0.001)"

subsection \<open>Jamming test\<close>

text \<open>\<^verbatim>\<open>gear.connectedTo || []\<close> for the gear behind a reference.\<close>

definition adjacent :: "gear list \<Rightarrow> nat \<Rightarrow> nat list" where
  "adjacent gs i = (case lookup_gear gs i of None \<Rightarrow> [] | Some g \<Rightarrow> connectedTo g)"

definition neighbour_ids :: "gear list \<Rightarrow> nat set" where
  "neighbour_ids gs = (\<Union>g \<in> set gs. set (connectedTo g))"

text \<open>The inner \<^verbatim>\<open>for\<close> loop of \<^verbatim>\<open>wouldCauseJamming\<close> over the neighbours of the
  dequeued gear: it returns from the whole function (\<open>Inl\<close>) when it meets
  \<^verbatim>\<open>gear2\<close>, and otherwise hands back the queue and the visited set.\<close>

fun jam_scan ::
  "nat \<Rightarrow> nat \<Rightarrow> nat list \<Rightarrow> (nat \<times> nat) list \<Rightarrow> nat set
     \<Rightarrow> bool + ((nat \<times> nat) list \<times> nat set)" where
  "jam_scan gear2 depth [] queue visited = Inr (queue, visited)"
| "jam_scan gear2 depth (c # cs) queue visited =
     (if c = gear2 then
        (let cycleLength = depth + 2 in Inl (cycleLength mod 2 = 1))
      else if c \<in> visited then jam_scan gear2 depth cs queue visited
      else jam_scan gear2 depth cs (queue @ [(c, depth + 1)]) (insert c visited))"

text \<open>The \<^verbatim>\<open>while (queue.length > 0)\<close> loop.\<close>

function jam_bfs :: "gear list \<Rightarrow> nat \<Rightarrow> (nat \<times> nat) list \<Rightarrow> nat set \<Rightarrow> bool" where
  "jam_bfs gs gear2 [] visited = False"
| "jam_bfs gs gear2 ((g, depth) # queue) visited =
     (case jam_scan gear2 depth (adjacent gs g) queue visited of
        Inl jam \<Rightarrow> jam
      | Inr (queue', visited') \<Rightarrow> jam_bfs gs gear2 queue' visited')"
  by pat_completeness auto

lemma lookup_gear_mem: "lookup_gear gs i = Some g \<Longrightarrow> g \<in> set gs \<and> gid g = i"
  unfolding lookup_gear_def
  by (induction gs) (auto split: if_splits)

lemma adjacent_subset: "set (adjacent gs i) \<subseteq> neighbour_ids gs"
proof (cases "lookup_gear gs i")
  case None
  then show ?thesis by (simp add: adjacent_def)
next
  case (Some g)
  then have "g \<in> set gs" by (simp add: lookup_gear_mem)
  with Some show ?thesis by (auto simp: adjacent_def neighbour_ids_def)
qed

lemma finite_neighbour_ids: "finite (neighbour_ids gs)"
  by (simp add: neighbour_ids_def)

lemma jam_scan_measure:
  assumes "jam_scan gear2 depth cs queue visited = Inr (queue', visited')"
    and "set cs \<subseteq> U" and "finite U"
  shows "length queue' + 2 * card (U - visited') \<le> length queue + 2 * card (U - visited)"
  using assms
proof (induction cs arbitrary: queue visited)
  case Nil
  then show ?case by simp
next
  case (Cons c cs)
  show ?case
  proof (cases "c = gear2")
    case True
    with Cons.prems show ?thesis by simp
  next
    case False
    show ?thesis
    proof (cases "c \<in> visited")
      case True
      with Cons False show ?thesis by simp
    next
      case unvisited: False
      from Cons.prems False unvisited
      have step: "jam_scan gear2 depth cs (queue @ [(c, depth + 1)]) (insert c visited)
                    = Inr (queue', visited')"
        by simp
      have "c \<in> U - visited" using Cons.prems(2) unvisited by simp
      then have "card (U - insert c visited) < card (U - visited)"
        using \<open>finite U\<close>
        by (metis Diff_insert card_Diff1_less finite_Diff)
      moreover have "length queue' + 2 * card (U - visited')
          \<le> length (queue @ [(c, depth + 1)]) + 2 * card (U - insert c visited)"
        using Cons.IH[OF step] Cons.prems(2,3) by simp
      ultimately show ?thesis by simp
    qed
  qed
qed

termination jam_bfs
proof (relation "measure (\<lambda>(gs, gear2, queue, visited).
          length queue + 2 * card (neighbour_ids gs - visited))")
  show "wf (measure (\<lambda>(gs, gear2, queue, visited).
          length queue + 2 * card (neighbour_ids gs - visited)))"
    by simp
next
  fix gs gear2 g depth queue visited x2 queue' visited'
  assume "jam_scan gear2 depth (adjacent gs g) queue visited = Inr x2"
    and "(queue', visited') = x2"
  then have "jam_scan gear2 depth (adjacent gs g) queue visited = Inr (queue', visited')"
    by simp
  from jam_scan_measure[OF this adjacent_subset finite_neighbour_ids]
  show "((gs, gear2, queue', visited'), (gs, gear2, (g, depth) # queue, visited))
          \<in> measure (\<lambda>(gs, gear2, queue, visited).
                length queue + 2 * card (neighbour_ids gs - visited))"
    by simp
qed

definition wouldCauseJamming :: "gear list \<Rightarrow> nat \<Rightarrow> nat \<Rightarrow> bool" where
  "wouldCauseJamming gs gear1 gear2 =
     (let gear1HasConnections = (adjacent gs gear1 \<noteq> []);
          gear2HasConnections = (adjacent gs gear2 \<noteq> [])
      in if \<not> gear1HasConnections \<and> \<not> gear2HasConnections then False
         else jam_bfs gs gear2 [(gear1, 0)] {gear1})"

subsection \<open>Connecting and error flags\<close>

definition push_connection :: "nat \<Rightarrow> nat \<Rightarrow> gear list \<Rightarrow> gear list" where
  "push_connection a b gs =
     update_gear a (\<lambda>g. if b \<in> set (connectedTo g) then g
                          else g\<lparr>connectedTo := connectedTo g @ [b]\<rparr>) gs"

definition connectGears :: "nat \<Rightarrow> nat \<Rightarrow> gear list \<Rightarrow> gear list" where
  "connectGears gear1 gear2 gs = push_connection gear2 gear1 (push_connection gear1 gear2 gs)"

definition clearIncompatibleState :: "gear \<Rightarrow> gear" where
  "clearIncompatibleState g =
     (if incompatibleWith g = None then g
      else g\<lparr>incompatibleWith := None, jammingError := False, overlapError := False\<rparr>)"

definition setJammingState :: "nat \<Rightarrow> nat \<Rightarrow> gear list \<Rightarrow> gear list" where
  "setJammingState movingGear targetGear gs =
     update_gear movingGear
       (\<lambda>g. g\<lparr>incompatibleWith := Some targetGear, jammingError := True\<rparr>) gs"

definition setOverlapState :: "nat \<Rightarrow> nat \<Rightarrow> gear list \<Rightarrow> gear list" where
  "setOverlapState movingGear targetGear gs =
     update_gear movingGear
       (\<lambda>g. g\<lparr>incompatibleWith := Some targetGear, overlapError := True\<rparr>) gs"

definition setIncompatibleState :: "nat \<Rightarrow> nat \<Rightarrow> gear list \<Rightarrow> gear list" where
  "setIncompatibleState movingGear targetGear gs =
     update_gear movingGear (\<lambda>g. g\<lparr>incompatibleWith := Some targetGear\<rparr>) gs"

subsection \<open>The rebuild \<^verbatim>\<open>updateConnections\<close>\<close>

text \<open>First loop: jamming and overlap errors are cleared.\<close>

definition clear_position_errors :: "gear list \<Rightarrow> gear list" where
  "clear_position_errors gs =
     map (\<lambda>g. if incompatibleWith g \<noteq> None \<and> (jammingError g \<or> overlapError g)
               then clearIncompatibleState g else g) gs"

text \<open>Second loop: a module incompatibility is cleared once the gear is more than
  \<^verbatim>\<open>incompatibleClearThreshold\<close> away from meshing distance with its target. A
  reference that is not in the registry takes the branch of the missing target; the
  operations leave no such reference (\<^verbatim>\<open>deleteSelectedGear\<close> clears every reference
  to the gear it removes), so that branch is not taken.\<close>

definition clear_moved_away :: "gear list \<Rightarrow> gear list" where
  "clear_moved_away gs =
     map (\<lambda>g. case incompatibleWith g of
                 None \<Rightarrow> g
               | Some t \<Rightarrow>
                   if \<not> jammingError g \<and> \<not> overlapError g then
                     (case lookup_gear gs t of
                        None \<Rightarrow> clearIncompatibleState g
                      | Some targetGear \<Rightarrow>
                          (let diff = \<bar>currentDistance g targetGear - idealDistance g targetGear\<bar>
                           in if diff > 10 then clearIncompatibleState g else g))
                   else g) gs"

definition clear_connections :: "gear list \<Rightarrow> gear list" where
  "clear_connections gs = map (\<lambda>g. g\<lparr>connectedTo := []\<rparr>) gs"

text \<open>The double loop \<^verbatim>\<open>for i, for j = i + 1\<close> over the registry.\<close>

fun all_pairs :: "'a list \<Rightarrow> ('a \<times> 'a) list" where
  "all_pairs [] = []"
| "all_pairs (a # as) = map (Pair a) as @ all_pairs as"

text \<open>The candidates within \<^verbatim>\<open>meshThreshold\<close>, sorted by distance. A candidate holds
  the two gears as read at collection time (the rebuild writes neither positions nor
  parameters afterwards) and their distance. \<^const>\<open>sort_key\<close> is a stable insertion
  sort, as \<^verbatim>\<open>Array.prototype.sort\<close> is stable.\<close>

definition potentialConnections :: "gear list \<Rightarrow> (gear \<times> gear \<times> real) list" where
  "potentialConnections gs =
     sort_key (\<lambda>(gear1, gear2, distance). distance)
       (map (\<lambda>(gear1, gear2). (gear1, gear2, currentDistance gear1 gear2))
          (filter (\<lambda>(gear1, gear2).
                     \<bar>currentDistance gear1 gear2 - idealDistance gear1 gear2\<bar> < 3)
             (all_pairs gs)))"

text \<open>The first overlapping pair in enumeration order.\<close>

definition first_overlap :: "gear list \<Rightarrow> (nat \<times> nat) option" where
  "first_overlap gs =
     map_option (\<lambda>(gear1, gear2). (gid gear1, gid gear2))
       (find (\<lambda>(gear1, gear2). checkGearsOverlap gear1 gear2) (all_pairs gs))"

text \<open>The loop over the candidates; its state is the registry and the first jamming
  pair met so far.\<close>

fun make_connections ::
  "(gear \<times> gear \<times> real) list \<Rightarrow> gear list \<Rightarrow> (nat \<times> nat) option
     \<Rightarrow> gear list \<times> (nat \<times> nat) option" where
  "make_connections [] gs jamming = (gs, jamming)"
| "make_connections ((gear1, gear2, distance) # rest) gs jamming =
     (if checkGearsOverlap gear1 gear2 then make_connections rest gs jamming
      else if \<not> areGearsCompatible gear1 gear2 then make_connections rest gs jamming
      else if wouldCauseJamming gs (gid gear1) (gid gear2) then
        make_connections rest gs
          (if jamming = None then Some (gid gear1, gid gear2) else jamming)
      else make_connections rest (connectGears (gid gear1) (gid gear2) gs) jamming)"

text \<open>Which gear of an error pair carries the flag: the selected one if it is in the
  pair, else the first.\<close>

definition error_gear :: "nat option \<Rightarrow> nat \<times> nat \<Rightarrow> nat \<times> nat" where
  "error_gear selected pair =
     (case pair of (first, second) \<Rightarrow>
        if selected = Some first then (first, second)
        else if selected = Some second then (second, first)
        else (first, second))"

definition surface_error ::
  "nat option \<Rightarrow> (nat \<times> nat) option \<Rightarrow> (nat \<times> nat) option \<Rightarrow> gear list \<Rightarrow> gear list" where
  "surface_error selected overlap jamming gs =
     (case overlap of
        Some pair \<Rightarrow>
          (case error_gear selected pair of (errorGear, otherGear) \<Rightarrow>
             setOverlapState errorGear otherGear gs)
      | None \<Rightarrow>
          (case jamming of
             Some pair \<Rightarrow>
               (case error_gear selected pair of (errorGear, otherGear) \<Rightarrow>
                  setJammingState errorGear otherGear gs)
           | None \<Rightarrow> gs))"

definition updateConnections :: "simulator \<Rightarrow> simulator" where
  "updateConnections s =
     (let gs = clear_connections (clear_moved_away (clear_position_errors (gears s)));
          overlap = first_overlap gs
      in case make_connections (potentialConnections gs) gs None of
           (gs', jamming) \<Rightarrow>
             s\<lparr>gears := surface_error (selectedGear s) overlap jamming gs'\<rparr>)"

subsection \<open>Kinematics: \<^verbatim>\<open>calculateGearSpeeds\<close>\<close>

definition find_driver :: "gear list \<Rightarrow> gear option" where
  "find_driver gs =
     (case find isDriver gs of
        Some g \<Rightarrow> Some g
      | None \<Rightarrow> (case gs of [] \<Rightarrow> None | g # _ \<Rightarrow> Some g))"

text \<open>The two assignments to a newly visited neighbour.\<close>

definition set_speed :: "nat \<Rightarrow> nat \<Rightarrow> gear list \<Rightarrow> gear list" where
  "set_speed current connected_id gs =
     (case lookup_gear gs current of
        None \<Rightarrow> gs
      | Some cur \<Rightarrow>
          update_gear connected_id
            (\<lambda>g. let ratio = real_of_int (teeth (params cur)) / real_of_int (teeth (params g))
                  in g\<lparr>rpm := rpm cur * ratio,
                       rotationDirection := - rotationDirection cur\<rparr>) gs)"

fun speed_scan ::
  "nat \<Rightarrow> nat list \<Rightarrow> gear list \<Rightarrow> nat list \<Rightarrow> nat set
     \<Rightarrow> gear list \<times> nat list \<times> nat set" where
  "speed_scan current [] gs queue visited = (gs, queue, visited)"
| "speed_scan current (c # cs) gs queue visited =
     (if c \<notin> visited then
        speed_scan current cs (set_speed current c gs) (queue @ [c]) (insert c visited)
      else speed_scan current cs gs queue visited)"

function speed_bfs :: "gear list \<Rightarrow> nat list \<Rightarrow> nat set \<Rightarrow> gear list" where
  "speed_bfs gs [] visited = gs"
| "speed_bfs gs (current # queue) visited =
     (case speed_scan current (adjacent gs current) gs queue visited of
        (gs', queue', visited') \<Rightarrow> speed_bfs gs' queue' visited')"
  by pat_completeness auto

lemma neighbour_ids_update_gear:
  "(\<And>g. connectedTo (f g) = connectedTo g) \<Longrightarrow> neighbour_ids (update_gear i f gs) = neighbour_ids gs"
  by (auto simp: neighbour_ids_def update_gear_def)

lemma neighbour_ids_set_speed: "neighbour_ids (set_speed a b gs) = neighbour_ids gs"
  by (simp add: set_speed_def neighbour_ids_update_gear Let_def split: option.splits)

lemma speed_scan_measure:
  assumes "speed_scan current cs gs queue visited = (gs', queue', visited')"
    and "set cs \<subseteq> neighbour_ids gs"
  shows "neighbour_ids gs' = neighbour_ids gs \<and>
         length queue' + 2 * card (neighbour_ids gs - visited')
           \<le> length queue + 2 * card (neighbour_ids gs - visited)"
  using assms
proof (induction cs arbitrary: gs queue visited)
  case Nil
  then show ?case by simp
next
  case (Cons c cs)
  show ?case
  proof (cases "c \<in> visited")
    case True
    with Cons show ?thesis by simp
  next
    case False
    let ?gs = "set_speed current c gs"
    from Cons.prems False
    have step: "speed_scan current cs ?gs (queue @ [c]) (insert c visited)
                  = (gs', queue', visited')"
      by simp
    have same: "neighbour_ids ?gs = neighbour_ids gs"
      by (rule neighbour_ids_set_speed)
    have "c \<in> neighbour_ids gs - visited" using Cons.prems(2) False by simp
    then have less: "card (neighbour_ids gs - insert c visited) < card (neighbour_ids gs - visited)"
      by (metis Diff_insert card_Diff1_less finite_Diff finite_neighbour_ids)
    have "set cs \<subseteq> neighbour_ids ?gs" using Cons.prems(2) same by simp
    from Cons.IH[OF step this] same less show ?thesis by simp
  qed
qed

termination speed_bfs
proof (relation "measure (\<lambda>(gs, queue, visited).
          length queue + 2 * card (neighbour_ids gs - visited))")
  show "wf (measure (\<lambda>(gs, queue, visited).
          length queue + 2 * card (neighbour_ids gs - visited)))"
    by simp
next
  fix gs current queue visited gs' y queue' visited'
  assume "(gs', y) = speed_scan current (adjacent gs current) gs queue visited"
    and "(queue', visited') = y"
  then have "speed_scan current (adjacent gs current) gs queue visited
               = (gs', queue', visited')"
    by simp
  from speed_scan_measure[OF this adjacent_subset]
  show "((gs', queue', visited'), (gs, current # queue, visited))
          \<in> measure (\<lambda>(gs, queue, visited).
                length queue + 2 * card (neighbour_ids gs - visited))"
    by simp
qed

definition calculateGearSpeeds :: "simulator \<Rightarrow> simulator" where
  "calculateGearSpeeds s =
     (case find_driver (gears s) of
        None \<Rightarrow> s
      | Some driver \<Rightarrow>
          (let gs = update_gear (gid driver)
                      (\<lambda>g. g\<lparr>rpm := inputRPM s, rotationDirection := 1\<rparr>) (gears s)
           in s\<lparr>gears := speed_bfs gs [gid driver] {gid driver}\<rparr>))"

subsection \<open>Lifecycle operations\<close>

definition selectGear :: "nat option \<Rightarrow> simulator \<Rightarrow> simulator" where
  "selectGear g s = s\<lparr>selectedGear := g\<rparr>"

text \<open>\<^verbatim>\<open>addGear\<close>: the argument holds the numbers parsed from the five form fields.
  Each falls back to its default when falsy; none is clamped.\<close>

definition addGear :: "gear_spec \<Rightarrow> simulator \<Rightarrow> simulator" where
  "addGear form s =
     (let p = \<lparr> teeth = or_default_int (teeth form) 20,
                module = or_default (module form) 2,
                pressureAngle = or_default (pressureAngle form) 20,
                thickness = or_default (thickness form) 5,
                boreDiameter = or_default (boreDiameter form) 5 \<rparr>;
          gearGeom = GearGeometry p;
          offset = real (length (gears s)) * 50;
          g = \<lparr> gid = nextGearId s,
                position = \<lparr> pos_x = offset, pos_y = 0, pos_z = 0 \<rparr>,
                params = \<lparr> teeth = teeth p, module = module p,
                           pressureAngle = pressureAngle p, thickness = thickness p,
                           boreDiameter = boreDiameter p,
                           pitchDiameter = geo_pitchDiameter gearGeom \<rparr>,
                rpm = 0, rotationDirection = 1, connectedTo = [],
                isDriver = (length (gears s) = 0),
                incompatibleWith = None, jammingError = False, overlapError = False \<rparr>
      in selectGear (Some (gid g)) (s\<lparr>gears := gears s @ [g], nextGearId := nextGearId s + 1\<rparr>))"

text \<open>The block under \<^verbatim>\<open>// Validate\<close> in \<^verbatim>\<open>updateSelectedGearParams\<close>.\<close>

definition validate_params :: "gear_spec \<Rightarrow> gear_spec" where
  "validate_params form =
     \<lparr> teeth = max 8 (min 100 (teeth form)),
       module = max 0.5 (min 10 (module form)),
       pressureAngle = max 14.5 (min 25 (pressureAngle form)),
       thickness = max 1 (min 20 (thickness form)),
       boreDiameter = max 1 (min 20 (boreDiameter form)) \<rparr>"

definition updateSelectedGearParams :: "gear_spec \<Rightarrow> simulator \<Rightarrow> simulator" where
  "updateSelectedGearParams form s =
     (case selectedGear s of
        None \<Rightarrow> s
      | Some sel \<Rightarrow>
          if lookup_gear (gears s) sel = None then s\<lparr>selectedGear := None\<rparr>
          else
            (let p = validate_params form;
                 gearGeom = GearGeometry p
             in updateConnections
                  (s\<lparr>gears := update_gear sel
                      (\<lambda>g. g\<lparr>params :=
                         \<lparr> teeth = teeth p, module = module p,
                           pressureAngle = pressureAngle p, thickness = thickness p,
                           boreDiameter = boreDiameter p,
                           pitchDiameter = geo_pitchDiameter gearGeom \<rparr>\<rparr>) (gears s)\<rparr>)))"

text \<open>\<^verbatim>\<open>updateSelectedGearPosition\<close>: the three coordinates read from the form.\<close>

definition updateSelectedGearPosition :: "real \<Rightarrow> real \<Rightarrow> real \<Rightarrow> simulator \<Rightarrow> simulator" where
  "updateSelectedGearPosition x y z s =
     (case selectedGear s of
        None \<Rightarrow> s
      | Some sel \<Rightarrow>
          updateConnections
            (s\<lparr>gears := update_gear sel
                (\<lambda>g. g\<lparr>position := \<lparr> pos_x = or_default x 0, pos_y = or_default y 0,
                                      pos_z = or_default z 0 \<rparr>\<rparr>) (gears s)\<rparr>))"

definition deleteSelectedGear :: "simulator \<Rightarrow> simulator" where
  "deleteSelectedGear s =
     (case selectedGear s of
        None \<Rightarrow> s
      | Some gearToDelete \<Rightarrow>
          if lookup_gear (gears s) gearToDelete = None then s\<lparr>selectedGear := None\<rparr>
          else
            (let gs1 = map (\<lambda>g. if incompatibleWith g = Some gearToDelete
                                  then clearIncompatibleState g else g) (gears s);
                 gs2 = update_gear gearToDelete clearIncompatibleState gs1;
                 gs3 = map (\<lambda>g. g\<lparr>connectedTo :=
                                     filter (\<lambda>c. c \<noteq> gearToDelete) (connectedTo g)\<rparr>) gs2
             in s\<lparr>gears := filter (\<lambda>g. gid g \<noteq> gearToDelete) gs3, selectedGear := None\<rparr>))"

text \<open>\<^verbatim>\<open>play\<close>. In the refusing branch \<^verbatim>\<open>showJammingMessage\<close> is called without its
  argument; after the sound and the message it builds a log line from \<^verbatim>\<open>gear.id\<close>,
  which raises on the missing gear, so the call leaves by that exception. No field of
  the simulator is written on the way.\<close>

datatype js_error = TypeError

definition play :: "simulator \<Rightarrow> js_error option \<times> simulator" where
  "play s =
     (case find jammingError (gears s) of
        Some jammingGear \<Rightarrow> (Some TypeError, s)
      | None \<Rightarrow> (None, calculateGearSpeeds (s\<lparr>isPlaying := True\<rparr>)))"

definition pause :: "simulator \<Rightarrow> simulator" where
  "pause s = s\<lparr>isPlaying := False\<rparr>"

subsection \<open>Predicates used to state the properties\<close>

text \<open>Two gears that agree on every field the propagation does not write.\<close>

definition same_static :: "gear \<Rightarrow> gear \<Rightarrow> bool" where
  "same_static g g' \<longleftrightarrow>
     gid g' = gid g \<and> position g' = position g \<and> params g' = params g \<and>
     connectedTo g' = connectedTo g \<and> isDriver g' = isDriver g \<and>
     incompatibleWith g' = incompatibleWith g \<and> jammingError g' = jammingError g \<and>
     overlapError g' = overlapError g"

text \<open>What a propagation may change: only \<^verbatim>\<open>rpm\<close> and \<^verbatim>\<open>rotationDirection\<close>, and only
  of gears whose id is in \<open>W\<close>.\<close>

definition speed_frame :: "nat set \<Rightarrow> gear list \<Rightarrow> gear list \<Rightarrow> bool" where
  "speed_frame W gs gs' \<longleftrightarrow>
     list_all2 (\<lambda>g g'. same_static g g' \<and> (gid g \<notin> W \<longrightarrow> g' = g)) gs gs'"

text \<open>Reachability through \<^verbatim>\<open>connectedTo\<close> references.\<close>

definition reachable :: "gear list \<Rightarrow> nat \<Rightarrow> nat \<Rightarrow> bool" where
  "reachable gs a b \<longleftrightarrow> (a, b) \<in> {(u, v). v \<in> set (adjacent gs u)}\<^sup>*"

text \<open>The two assignments to the driver at the start of the propagation.\<close>

definition set_driver_speed :: "real \<Rightarrow> gear \<Rightarrow> gear" where
  "set_driver_speed r g = g\<lparr>rpm := r, rotationDirection := 1\<rparr>"

text \<open>\<open>walk gs a n b\<close>: there are \<open>n\<close> references leading from gear \<open>a\<close> to gear \<open>b\<close>. A
  shortest path is a walk of least length.\<close>

inductive walk :: "gear list \<Rightarrow> nat \<Rightarrow> nat \<Rightarrow> nat \<Rightarrow> bool"
  for gs :: "gear list" and a :: nat where
  walk_refl: "walk gs a 0 a"
| walk_step: "walk gs a n b \<Longrightarrow> c \<in> set (adjacent gs b) \<Longrightarrow> walk gs a (Suc n) c"

definition shortest_path :: "gear list \<Rightarrow> nat \<Rightarrow> nat \<Rightarrow> nat \<Rightarrow> bool" where
  "shortest_path gs a b n \<longleftrightarrow> walk gs a n b \<and> (\<forall>m. walk gs a m b \<longrightarrow> n \<le> m)"

text \<open>A gear is driven when a gear with an id in \<open>V\<close> at distance \<open>n\<close> from the driver
  lists it in \<^verbatim>\<open>connectedTo\<close>, the gear itself is at distance \<open>n + 1\<close>, and its speed and
  direction follow from that gear's by the two assignments of the propagation. The
  invariant of the propagation: every gear with an id in \<open>V\<close> but the driver is driven.\<close>

definition driven_at :: "nat \<Rightarrow> gear list \<Rightarrow> nat set \<Rightarrow> gear \<Rightarrow> bool" where
  "driven_at d gs V g \<longleftrightarrow>
     (\<exists>c\<in>V. \<exists>p n. lookup_gear gs c = Some p \<and>
        shortest_path gs d c n \<and> shortest_path gs d (gid g) (Suc n) \<and>
        gid g \<in> set (connectedTo p) \<and>
        rpm g = rpm p * (real_of_int (teeth (params p)) / real_of_int (teeth (params g))) \<and>
        rotationDirection g = - rotationDirection p)"

definition layer_inv :: "nat \<Rightarrow> gear list \<Rightarrow> nat set \<Rightarrow> bool" where
  "layer_inv d gs V \<longleftrightarrow> (\<forall>g\<in>set gs. gid g \<in> V \<and> gid g \<noteq> d \<longrightarrow> driven_at d gs V g)"

text \<open>The invariant of the queue of \<^verbatim>\<open>wouldCauseJamming\<close>: depths are sorted and span at
  most two consecutive values; every queued gear carries its distance from the start;
  every visited gear that has left the queue has all its neighbours visited; the
  target is not visited.\<close>

fun levels :: "(nat \<times> nat) list \<Rightarrow> bool" where
  "levels [] = True"
| "levels ((v, D) # q) = (sorted (map snd q) \<and> (\<forall>(u, d)\<in>set q. D \<le> d \<and> d \<le> D + 1))"

definition bfs_inv :: "gear list \<Rightarrow> nat \<Rightarrow> nat \<Rightarrow> (nat \<times> nat) list \<Rightarrow> nat set \<Rightarrow> bool" where
  "bfs_inv gs s t Q vis \<longleftrightarrow>
     s \<in> vis \<and> t \<notin> vis \<and> fst ` set Q \<subseteq> vis \<and>
     (\<forall>a\<in>vis - fst ` set Q. set (adjacent gs a) \<subseteq> vis) \<and>
     (\<forall>(v, d)\<in>set Q. walk gs s d v \<and> (\<forall>n. walk gs s n v \<longrightarrow> d \<le> n)) \<and>
     levels Q"

text \<open>Relations between a gear before and after a step of the rebuild: the same id,
  position and parameters; these and the same connections; everything but the
  connections.\<close>

definition same_geometry :: "gear \<Rightarrow> gear \<Rightarrow> bool" where
  "same_geometry g g' \<longleftrightarrow> gid g' = gid g \<and> position g' = position g \<and> params g' = params g"

definition same_skeleton :: "gear \<Rightarrow> gear \<Rightarrow> bool" where
  "same_skeleton g g' \<longleftrightarrow> same_geometry g g' \<and> connectedTo g' = connectedTo g"

definition same_but_connections :: "gear \<Rightarrow> gear \<Rightarrow> bool" where
  "same_but_connections g g' \<longleftrightarrow>
     same_geometry g g' \<and> rpm g' = rpm g \<and> rotationDirection g' = rotationDirection g \<and>
     isDriver g' = isDriver g \<and> incompatibleWith g' = incompatibleWith g \<and>
     jammingError g' = jammingError g \<and> overlapError g' = overlapError g"

text \<open>The form in which \<^verbatim>\<open>setJammingState\<close>, \<^verbatim>\<open>setOverlapState\<close> and
  \<^verbatim>\<open>clearIncompatibleState\<close> keep the error fields: a flag is set only together with
  the reference. And the form in which the operations keep the references: each
  points to a gear of the registry.\<close>

definition flags_wf :: "gear list \<Rightarrow> bool" where
  "flags_wf gs \<longleftrightarrow>
     (\<forall>g\<in>set gs. jammingError g \<or> overlapError g \<longrightarrow> incompatibleWith g \<noteq> None)"

definition refs_wf :: "gear list \<Rightarrow> bool" where
  "refs_wf gs \<longleftrightarrow>
     (\<forall>g\<in>set gs. case incompatibleWith g of
                     None \<Rightarrow> True
                   | Some t \<Rightarrow> lookup_gear gs t \<noteq> None)"

text \<open>Two candidates of the rebuild over the same pair of geometries.\<close>

definition same_candidate :: "gear \<times> gear \<times> real \<Rightarrow> gear \<times> gear \<times> real \<Rightarrow> bool" where
  "same_candidate c c' \<longleftrightarrow>
     (case (c, c') of ((a, b, d), (a', b', d')) \<Rightarrow>
        same_geometry a a' \<and> same_geometry b b' \<and> d' = d)"

text \<open>The rebuild gear by gear: the bodies of its two clearing loops, the flag its last
  step sets, and the loop over the candidates started on the cleared registry.\<close>

definition clear_position_error :: "gear \<Rightarrow> gear" where
  "clear_position_error g =
     (if incompatibleWith g \<noteq> None \<and> (jammingError g \<or> overlapError g)
      then clearIncompatibleState g else g)"

definition clear_if_moved_away :: "gear list \<Rightarrow> gear \<Rightarrow> gear" where
  "clear_if_moved_away gs g =
     (case incompatibleWith g of
        None \<Rightarrow> g
      | Some t \<Rightarrow>
          if \<not> jammingError g \<and> \<not> overlapError g then
            (case lookup_gear gs t of
               None \<Rightarrow> clearIncompatibleState g
             | Some targetGear \<Rightarrow>
                 if \<bar>currentDistance g targetGear - idealDistance g targetGear\<bar> > 10
                 then clearIncompatibleState g else g)
          else g)"

definition surface_gear ::
  "nat option \<Rightarrow> (nat \<times> nat) option \<Rightarrow> (nat \<times> nat) option \<Rightarrow> gear \<Rightarrow> gear" where
  "surface_gear selected overlap jamming g =
     (case overlap of
        Some pair \<Rightarrow>
          if gid g = fst (error_gear selected pair)
          then g\<lparr>incompatibleWith := Some (snd (error_gear selected pair)), overlapError := True\<rparr>
          else g
      | None \<Rightarrow>
          (case jamming of
             Some pair \<Rightarrow>
               if gid g = fst (error_gear selected pair)
               then g\<lparr>incompatibleWith := Some (snd (error_gear selected pair)),
                      jammingError := True\<rparr>
               else g
           | None \<Rightarrow> g))"

definition rebuild_graph :: "gear list \<Rightarrow> gear list \<times> (nat \<times> nat) option" where
  "rebuild_graph gs =
     make_connections (potentialConnections (clear_connections gs)) (clear_connections gs) None"

text \<open>A gear the second clearing loop leaves alone, and a gear the last step flags.\<close>

definition settled :: "gear list \<Rightarrow> gear \<Rightarrow> bool" where
  "settled gs g \<longleftrightarrow>
     (case incompatibleWith g of
        None \<Rightarrow> True
      | Some t \<Rightarrow>
          (case lookup_gear gs t of
             None \<Rightarrow> False
           | Some targetGear \<Rightarrow>
               \<not> \<bar>currentDistance g targetGear - idealDistance g targetGear\<bar> > 10))"

definition touched ::
  "nat option \<Rightarrow> (nat \<times> nat) option \<Rightarrow> (nat \<times> nat) option \<Rightarrow> gear \<Rightarrow> bool" where
  "touched selected overlap jamming g \<longleftrightarrow>
     (case overlap of
        Some pair \<Rightarrow> gid g = fst (error_gear selected pair)
      | None \<Rightarrow>
          (case jamming of
             Some pair \<Rightarrow> gid g = fst (error_gear selected pair)
           | None \<Rightarrow> False))"

text \<open>The registry with which the loop over the candidates starts, and the registry
  at the moment the loop reaches the candidate of the gears \<open>a\<close> and \<open>b\<close>: the result of
  the loop over the candidates sorted before it.\<close>

definition rebuild_start :: "gear list \<Rightarrow> gear list" where
  "rebuild_start gs = clear_connections (clear_moved_away (clear_position_errors gs))"

definition graph_before :: "gear list \<Rightarrow> nat \<Rightarrow> nat \<Rightarrow> gear list" where
  "graph_before gs a b =
     fst (make_connections
            (takeWhile (\<lambda>(gear1, gear2, distance). \<not> (gid gear1 = a \<and> gid gear2 = b))
               (potentialConnections (rebuild_start gs)))
            (rebuild_start gs) None)"

text \<open>Every reference in a \<^verbatim>\<open>connectedTo\<close> joins a pair of \<open>L\<close>; the three tests a
  candidate passes before it is connected; the invariant of the simulator's states.\<close>

definition edges_in :: "(nat \<times> nat) set \<Rightarrow> gear list \<Rightarrow> bool" where
  "edges_in L gs \<longleftrightarrow>
     (\<forall>g\<in>set gs. \<forall>c\<in>set (connectedTo g). (gid g, c) \<in> L \<or> (c, gid g) \<in> L)"

definition meshing :: "gear \<Rightarrow> gear \<Rightarrow> bool" where
  "meshing g h \<longleftrightarrow>
     \<not> checkGearsOverlap g h \<and> areGearsCompatible g h \<and>
     \<bar>currentDistance g h - idealDistance g h\<bar> < 3"

definition sim_inv :: "simulator \<Rightarrow> bool" where
  "sim_inv s \<longleftrightarrow>
     flags_wf (gears s) \<and> distinct (map gid (gears s)) \<and>
     (\<forall>g\<in>set (gears s). gid g < nextGearId s)"

subsection \<open>Example scenes\<close>

text \<open>The values \<^verbatim>\<open>addGear\<close> falls back to.\<close>

definition default_form :: gear_spec where
  "default_form =
     \<lparr> teeth = 20, module = 2, pressureAngle = 20, thickness = 5, boreDiameter = 5 \<rparr>"

text \<open>Three gears with 20, 30 and 15 teeth of module 2 on the x axis at 0, 50 and 95:
  the first meshes with the second, the second with the third.\<close>

definition chain_scene :: simulator where
  "chain_scene =
     updateSelectedGearPosition 95 0 0
       (addGear (default_form\<lparr>teeth := 15\<rparr>)
          (addGear (default_form\<lparr>teeth := 30\<rparr>)
             (addGear default_form initial_simulator)))"

text \<open>Two default gears are meshed and played, then the second is moved out of range.\<close>

definition stale_scene :: simulator where
  "stale_scene =
     updateSelectedGearPosition 100 0 0
       (snd (play
          (updateSelectedGearPosition 40 0 0
             (addGear default_form (addGear default_form initial_simulator)))))"

text \<open>Two gears of 20 teeth at distance 40 and one of 9 teeth at distance 29 from both
  (module 2): three pairwise meshing distances.\<close>

definition triangle_scene :: simulator where
  "triangle_scene =
     updateSelectedGearPosition 20 21 0
       (addGear (default_form\<lparr>teeth := 9\<rparr>)
          (updateSelectedGearPosition 40 0 0
             (addGear default_form (addGear default_form initial_simulator))))"

text \<open>The chain after its first gear, the driver, has been selected and deleted.\<close>

definition driverless_scene :: simulator where
  "driverless_scene = deleteSelectedGear (selectGear (Some 1) chain_scene)"

text \<open>Gears of module 1, so that the tooth count is the pitch diameter.\<close>

definition unit_form :: "int \<Rightarrow> gear_spec" where
  "unit_form n = \<lparr> teeth = n, module = 1, pressureAngle = 20, thickness = 5, boreDiameter = 5 \<rparr>"

text \<open>Four gears on the corners (0, 0), (20, 0), (20, 21), (0, 21) of a rectangle with
  diagonal 29, in this order.\<close>

definition rectangle_scene :: "int \<Rightarrow> int \<Rightarrow> int \<Rightarrow> int \<Rightarrow> simulator" where
  "rectangle_scene a b c d =
     updateSelectedGearPosition 0 21 0
       (addGear (unit_form d)
          (updateSelectedGearPosition 20 21 0
             (addGear (unit_form c)
                (updateSelectedGearPosition 20 0 0
                   (addGear (unit_form b)
                      (addGear (unit_form a) initial_simulator))))))"

text \<open>Two gears of 20 teeth with modules 2 and 3 at their ideal distance 50; in the
  second scene the second gear carries a module incompatibility with the first.\<close>

definition mismatch_scene :: simulator where
  "mismatch_scene =
     updateSelectedGearPosition 50 0 0
       (addGear (default_form\<lparr>module := 3\<rparr>) (addGear default_form initial_simulator))"

definition flagged_mismatch_scene :: simulator where
  "flagged_mismatch_scene =
     mismatch_scene\<lparr>gears := setIncompatibleState 2 1 (gears mismatch_scene)\<rparr>"

section \<open>Gear dimensions\<close>

lemma GearGeometry_valid_fields:
  assumes "valid_spec p"
  shows "geo_teeth (GearGeometry p) = teeth p"
    and "geo_module (GearGeometry p) = module p"
    and "geo_boreDiameter (GearGeometry p) = boreDiameter p"
    and "geo_pitchDiameter (GearGeometry p) = real_of_int (teeth p) * module p"
  using assms
  by (auto simp: GearGeometry_def valid_spec_def or_default_def or_default_int_def Let_def)


text \<open>
  C9 as stated: for every valid specification, \<open>rootRadius < pitchRadius < outerRadius\<close>,
  \<open>boreRadius < rootRadius\<close>, and \<open>boreRadius = min (boreDiameter / 2) (rootRadius * 0.5)\<close>.
  The last equation fails: the constructor replaces the bore radius only when it
  reaches the root radius. With 20 teeth, module 2 and bore diameter 20 the root
  radius is 17.5 and the bore radius stays 10, while the minimum is 8.75.
\<close>

theorem C9_bore_min_counterexample:
  "valid_spec \<lparr> teeth = 20, module = 2, pressureAngle = 20, thickness = 5, boreDiameter = 20 \<rparr>
   \<and> boreRadius (GearGeometry
        \<lparr> teeth = 20, module = 2, pressureAngle = 20, thickness = 5, boreDiameter = 20 \<rparr>)
     \<noteq> min (boreDiameter
              \<lparr> teeth = 20, module = 2, pressureAngle = 20, thickness = 5, boreDiameter = 20 \<rparr> / 2)
           (rootRadius (GearGeometry
              \<lparr> teeth = 20, module = 2, pressureAngle = 20, thickness = 5, boreDiameter = 20 \<rparr>) * 0.5)"
  by (simp add: valid_spec_def GearGeometry_def or_default_def or_default_int_def Let_def)

text \<open>
  C9, amended: for every specification with teeth in 8..100, module in 0.5..10,
  pressure angle in 14.5..25 and bore diameter in 1..20 the radii are ordered
  \<open>rootRadius < pitchRadius < outerRadius\<close>, the bore radius is below the root radius,
  and the bore radius is \<open>boreDiameter / 2\<close> when that is below the root radius and
  \<open>rootRadius * 0.5\<close> otherwise.
\<close>

theorem C9_dimensions:
  assumes "8 \<le> teeth p" and "teeth p \<le> 100"
    and "0.5 \<le> module p" and "module p \<le> 10"
    and "14.5 \<le> pressureAngle p" and "pressureAngle p \<le> 25"
    and "1 \<le> boreDiameter p" and "boreDiameter p \<le> 20"
  shows "rootRadius (GearGeometry p) < pitchRadius (GearGeometry p)
       \<and> pitchRadius (GearGeometry p) < outerRadius (GearGeometry p)
       \<and> boreRadius (GearGeometry p) < rootRadius (GearGeometry p)
       \<and> boreRadius (GearGeometry p) =
           (if boreDiameter p / 2 < rootRadius (GearGeometry p) then boreDiameter p / 2
            else rootRadius (GearGeometry p) * 0.5)"
proof -
  from assms have t: "8 \<le> real_of_int (teeth p)" and m: "0 < module p"
    and nz: "teeth p \<noteq> 0" "module p \<noteq> 0" "boreDiameter p \<noteq> 0"
    by auto
  define pr where "pr = real_of_int (teeth p) * module p / 2"
  define rr where "rr = pr - 1.25 * module p"
  have pitch: "pitchRadius (GearGeometry p) = pr"
    and outer: "outerRadius (GearGeometry p) = pr + module p"
    and root: "rootRadius (GearGeometry p) = rr"
    and bore: "boreRadius (GearGeometry p) =
                 (if boreDiameter p / 2 \<ge> rr then rr * 0.5 else boreDiameter p / 2)"
    using nz
    by (simp_all add: GearGeometry_def or_default_def or_default_int_def Let_def
        pr_def rr_def)
  have "8 * module p \<le> real_of_int (teeth p) * module p"
    using t m by (simp add: mult_right_mono)
  then have root_pos: "0 < rr"
    using m by (simp add: rr_def pr_def)
  have "rr < pr" using m by (simp add: rr_def)
  moreover have "pr < pr + module p" using m by simp
  moreover have "(if boreDiameter p / 2 \<ge> rr then rr * 0.5 else boreDiameter p / 2) < rr"
    using root_pos by simp
  moreover have "(if boreDiameter p / 2 \<ge> rr then rr * 0.5 else boreDiameter p / 2)
      = (if boreDiameter p / 2 < rr then boreDiameter p / 2 else rr * 0.5)"
    by simp
  ultimately show ?thesis
    unfolding pitch outer root bore by simp
qed

theorem C9_dimensions_witness:
  "valid_spec \<lparr> teeth = 20, module = 2, pressureAngle = 20, thickness = 5, boreDiameter = 20 \<rparr>
   \<and> boreRadius (GearGeometry
        \<lparr> teeth = 20, module = 2, pressureAngle = 20, thickness = 5, boreDiameter = 20 \<rparr>) = 10
   \<and> rootRadius (GearGeometry
        \<lparr> teeth = 20, module = 2, pressureAngle = 20, thickness = 5, boreDiameter = 20 \<rparr>) = 17.5"
proof -
  let ?p = "\<lparr> teeth = 20, module = 2, pressureAngle = 20, thickness = 5, boreDiameter = 20 \<rparr>"
  have v: "valid_spec ?p" by (simp add: valid_spec_def)
  have r: "rootRadius (GearGeometry ?p) = 17.5"
    by (simp add: GearGeometry_def or_default_def or_default_int_def Let_def)
  from C9_dimensions[of ?p] r v show ?thesis by simp
qed


section \<open>Parameter validation\<close>

lemma validate_params_valid: "valid_spec (validate_params form)"
  by (simp add: valid_spec_def validate_params_def)

text \<open>
  C7: add-gear and update-gear-spec both clamp every requested parameter to its range
  before building the gear. \<^const>\<open>updateSelectedGearParams\<close> does
  (\<open>validate_params_valid\<close>); \<^const>\<open>addGear\<close> does not: with 500 entered for the
  teeth, the gear added to the empty registry stores 500 teeth and a pitch diameter
  of 1000.
\<close>

theorem C7_addGear_stores_unclamped:
  "map (\<lambda>g. (teeth (params g), pitchDiameter (params g)))
     (gears (addGear
        \<lparr> teeth = 500, module = 2, pressureAngle = 20, thickness = 5, boreDiameter = 5 \<rparr>
        initial_simulator))
   = [(500, 1000)]"
  by (simp add: addGear_def selectGear_def initial_simulator_def GearGeometry_def
      or_default_def or_default_int_def Let_def)

section \<open>Play\<close>

lemma find_None_iff_no_member: "find P xs = None \<longleftrightarrow> (\<forall>x\<in>set xs. \<not> P x)"
  by (induction xs) auto

section \<open>The jamming test finds a shortest path\<close>

lemma shortest_path_unique:
  "shortest_path gs a b n \<Longrightarrow> shortest_path gs a b m \<Longrightarrow> n = m"
  by (simp add: shortest_path_def le_antisym)

lemma levels_tail: "levels (x # q) \<Longrightarrow> levels q"
proof (cases q)
  case Nil
  then show ?thesis by simp
next
  case (Cons y q')
  assume "levels (x # q)"
  with Cons show ?thesis
    by (cases x; cases y) (fastforce)
qed

lemma levels_push: "levels ((v, D) # q) \<Longrightarrow> levels ((v, D) # q @ [(c, D + 1)])"
  by (auto simp: sorted_append)

lemma frontier:
  assumes inv: "bfs_inv gs s t Q vis"
    and w: "walk gs s n x" and x: "x \<notin> vis"
  shows "\<exists>(v, d)\<in>set Q. d < n"
  using w x
proof (induction rule: walk.induct)
  case walk_refl
  with inv show ?case by (simp add: bfs_inv_def)
next
  case (walk_step n b c)
  show ?case
  proof (cases "b \<in> vis")
    case False
    with walk_step.IH obtain v d where "(v, d) \<in> set Q" "d < n" by auto
    then show ?thesis by (intro bexI[of _ "(v, d)"]) auto
  next
    case True
    have "b \<in> fst ` set Q"
    proof (rule ccontr)
      assume "b \<notin> fst ` set Q"
      with True inv have "set (adjacent gs b) \<subseteq> vis" by (simp add: bfs_inv_def)
      with walk_step.hyps(2) walk_step.prems show False by auto
    qed
    then obtain d where bd: "(b, d) \<in> set Q" by auto
    with inv walk_step.hyps(1) have "d \<le> n" by (auto simp: bfs_inv_def)
    with bd show ?thesis by (intro bexI[of _ "(b, d)"]) auto
  qed
qed

lemma frontier_head:
  assumes inv: "bfs_inv gs s t ((cur, D) # q) vis"
    and w: "walk gs s n x" and x: "x \<notin> vis"
  shows "D + 1 \<le> n"
proof -
  from frontier[OF inv w x] obtain v d where vd: "(v, d) \<in> set ((cur, D) # q)" and "d < n"
    by auto
  moreover from inv vd have "D \<le> d" by (auto simp: bfs_inv_def)
  ultimately show ?thesis by simp
qed

lemma bfs_inv_push:
  assumes inv: "bfs_inv gs s t ((cur, D) # q) vis"
    and adj: "c \<in> set (adjacent gs cur)" and unvisited: "c \<notin> vis" and ct: "c \<noteq> t"
  shows "bfs_inv gs s t ((cur, D) # (q @ [(c, D + 1)])) (insert c vis)"
proof -
  from inv have old: "s \<in> vis" "t \<notin> vis" "fst ` set ((cur, D) # q) \<subseteq> vis"
    "\<forall>a\<in>vis - fst ` set ((cur, D) # q). set (adjacent gs a) \<subseteq> vis"
    "\<forall>(v, d)\<in>set ((cur, D) # q). walk gs s d v \<and> (\<forall>n. walk gs s n v \<longrightarrow> d \<le> n)"
    "levels ((cur, D) # q)"
    by (simp_all add: bfs_inv_def)
  from old(5) have w: "walk gs s D cur" by simp
  from w adj have wc: "walk gs s (Suc D) c" by (rule walk_step)
  have minc: "\<forall>n. walk gs s n c \<longrightarrow> D + 1 \<le> n"
    using frontier_head[OF inv] unvisited by blast
  have "levels ((cur, D) # q @ [(c, D + 1)])" using old(6) by (rule levels_push)
  moreover have "\<forall>a\<in>insert c vis - fst ` set ((cur, D) # q @ [(c, D + 1)]).
      set (adjacent gs a) \<subseteq> insert c vis"
    using old(4) by auto
  moreover have "\<forall>(v, d)\<in>set ((cur, D) # q @ [(c, D + 1)]).
      walk gs s d v \<and> (\<forall>n. walk gs s n v \<longrightarrow> d \<le> n)"
    using old(5) wc minc by auto
  ultimately show ?thesis
    using old(1,2,3) ct by (auto simp: bfs_inv_def)
qed

lemma bfs_inv_pop:
  assumes inv: "bfs_inv gs s t ((cur, D) # q) vis"
    and adj: "set (adjacent gs cur) \<subseteq> vis"
  shows "bfs_inv gs s t q vis"
proof -
  from inv have "levels ((cur, D) # q)" by (simp add: bfs_inv_def del: levels.simps)
  then have "levels q" by (rule levels_tail)
  moreover have "\<forall>a\<in>vis - fst ` set q. set (adjacent gs a) \<subseteq> vis"
  proof
    fix a assume "a \<in> vis - fst ` set q"
    then show "set (adjacent gs a) \<subseteq> vis"
      using inv adj by (cases "a = cur") (auto simp: bfs_inv_def)
  qed
  ultimately show ?thesis using inv by (auto simp: bfs_inv_def)
qed

lemma jam_scan_found:
  assumes "jam_scan t D cs q vis = Inl b"
    and "bfs_inv gs s t ((cur, D) # q) vis"
    and "set cs \<subseteq> set (adjacent gs cur)"
  shows "shortest_path gs s t (D + 1) \<and> b = odd (D + 2)"
  using assms
proof (induction cs arbitrary: q vis)
  case Nil
  then show ?case by simp
next
  case (Cons c cs)
  show ?case
  proof (cases "c = t")
    case True
    from Cons.prems(2) have w: "walk gs s D cur" and "t \<notin> vis"
      by (auto simp: bfs_inv_def)
    from Cons.prems(3) True have "t \<in> set (adjacent gs cur)" by simp
    with w have "walk gs s (Suc D) t" by (rule walk_step)
    moreover have "\<forall>m. walk gs s m t \<longrightarrow> D + 1 \<le> m"
      using frontier_head[OF Cons.prems(2)] \<open>t \<notin> vis\<close> by blast
    ultimately have "shortest_path gs s t (D + 1)" by (simp add: shortest_path_def)
    moreover from Cons.prems(1) True have "b = odd (D + 2)"
      by (simp add: odd_iff_mod_2_eq_one)
    ultimately show ?thesis by simp
  next
    case False
    show ?thesis
    proof (cases "c \<in> vis")
      case True
      with False Cons.prems have "jam_scan t D cs q vis = Inl b" by simp
      from Cons.IH[OF this Cons.prems(2)] Cons.prems(3) show ?thesis by simp
    next
      case unvisited: False
      with False Cons.prems
      have scan: "jam_scan t D cs (q @ [(c, D + 1)]) (insert c vis) = Inl b" by simp
      have "bfs_inv gs s t ((cur, D) # (q @ [(c, D + 1)])) (insert c vis)"
        using Cons.prems(2,3) unvisited False by (intro bfs_inv_push) simp_all
      from Cons.IH[OF scan this] Cons.prems(3) show ?thesis by simp
    qed
  qed
qed

lemma jam_scan_continue:
  assumes "jam_scan t D cs q vis = Inr (q', vis')"
    and "bfs_inv gs s t ((cur, D) # q) vis"
    and "set cs \<subseteq> set (adjacent gs cur)"
  shows "bfs_inv gs s t ((cur, D) # q') vis' \<and> vis \<subseteq> vis' \<and> set cs \<subseteq> vis'"
  using assms
proof (induction cs arbitrary: q vis)
  case Nil
  then show ?case by simp
next
  case (Cons c cs)
  from Cons.prems(1) have ct: "c \<noteq> t" by (auto split: if_splits)
  show ?case
  proof (cases "c \<in> vis")
    case True
    with ct Cons.prems have "jam_scan t D cs q vis = Inr (q', vis')" by simp
    from Cons.IH[OF this Cons.prems(2)] Cons.prems(3) True show ?thesis by auto
  next
    case unvisited: False
    with ct Cons.prems
    have scan: "jam_scan t D cs (q @ [(c, D + 1)]) (insert c vis) = Inr (q', vis')" by simp
    have "bfs_inv gs s t ((cur, D) # (q @ [(c, D + 1)])) (insert c vis)"
      using Cons.prems(2,3) unvisited ct by (intro bfs_inv_push) simp_all
    from Cons.IH[OF scan this] Cons.prems(3) show ?thesis by auto
  qed
qed

lemma jam_bfs_correct:
  assumes "bfs_inv gs s t q vis"
  shows "jam_bfs gs t q vis \<longleftrightarrow> (\<exists>n. shortest_path gs s t n \<and> odd (n + 1))"
  using assms
proof (induction gs t q vis rule: jam_bfs.induct)
  case (1 gs t vis)
  have "\<not> walk gs s n t" for n
  proof
    assume "walk gs s n t"
    from frontier[OF "1.prems" this] "1.prems" show False by (simp add: bfs_inv_def)
  qed
  then show ?case by (simp add: shortest_path_def)
next
  case (2 gs t cur D q vis)
  show ?case
  proof (cases "jam_scan t D (adjacent gs cur) q vis")
    case (Inl b)
    from jam_scan_found[OF Inl "2.prems"]
    have sp: "shortest_path gs s t (D + 1)" and b: "b = odd (D + 2)" by simp_all
    have "(\<exists>n. shortest_path gs s t n \<and> odd (n + 1)) \<longleftrightarrow> odd (D + 1 + 1)"
      using sp shortest_path_unique[OF sp] by blast
    with Inl b show ?thesis by simp
  next
    case (Inr r)
    obtain q' vis' where r: "r = (q', vis')" by (cases r)
    from jam_scan_continue[OF Inr[unfolded r] "2.prems"]
    have "bfs_inv gs s t ((cur, D) # q') vis'" and "set (adjacent gs cur) \<subseteq> vis'"
      by simp_all
    then have "bfs_inv gs s t q' vis'" by (rule bfs_inv_pop)
    from "2.IH"[OF Inr[unfolded r] refl this] Inr r show ?thesis by simp
  qed
qed

lemma walk_from_isolated:
  assumes "adjacent gs a = []" and "walk gs a n b"
  shows "b = a"
  using assms(2,1) by (induction rule: walk.induct) auto

lemma wouldCauseJamming_correct:
  assumes "gear1 \<noteq> gear2"
  shows "wouldCauseJamming gs gear1 gear2
           \<longleftrightarrow> (\<exists>n. shortest_path gs gear1 gear2 n \<and> odd (n + 1))"
proof (cases "adjacent gs gear1 = [] \<and> adjacent gs gear2 = []")
  case True
  then have "\<not> walk gs gear1 n gear2" for n
    using walk_from_isolated[of gs gear1 n gear2] assms by auto
  with True show ?thesis by (simp add: wouldCauseJamming_def shortest_path_def)
next
  case False
  have "bfs_inv gs gear1 gear2 [(gear1, 0)] {gear1}"
    using assms by (auto simp: bfs_inv_def intro: walk_refl)
  moreover from False
  have "wouldCauseJamming gs gear1 gear2 = jam_bfs gs gear2 [(gear1, 0)] {gear1}"
    by (auto simp: wouldCauseJamming_def Let_def simp del: jam_bfs.simps)
  ultimately show ?thesis by (simp only: jam_bfs_correct)
qed

text \<open>Walks depend on the registry only through the connections, and the propagation
  does not change them.\<close>

lemma walk_cong:
  assumes "\<And>i. adjacent gs' i = adjacent gs i"
  shows "walk gs' a n b \<longleftrightarrow> walk gs a n b"
proof
  assume "walk gs' a n b"
  then show "walk gs a n b"
    by (induction rule: walk.induct) (auto intro: walk.intros simp: assms)
next
  assume "walk gs a n b"
  then show "walk gs' a n b"
    by (induction rule: walk.induct) (auto intro: walk.intros simp: assms[symmetric])
qed

lemma shortest_path_cong:
  assumes "\<And>i. adjacent gs' i = adjacent gs i"
  shows "shortest_path gs' a b n \<longleftrightarrow> shortest_path gs a b n"
  by (simp add: shortest_path_def walk_cong[OF assms])

lemma bfs_inv_cong:
  assumes "\<And>i. adjacent gs' i = adjacent gs i"
  shows "bfs_inv gs' s t Q vis \<longleftrightarrow> bfs_inv gs s t Q vis"
  by (simp add: bfs_inv_def walk_cong[OF assms] assms)

lemma walk_zero: "walk gs a 0 b \<Longrightarrow> b = a"
  by (erule walk.cases) auto

lemma walk_Suc: "walk gs a (Suc n) c \<Longrightarrow> \<exists>b. walk gs a n b \<and> c \<in> set (adjacent gs b)"
  by (erule walk.cases) auto

lemma shortest_path_0: "shortest_path gs a a 0"
  by (simp add: shortest_path_def walk_refl)

lemma shortest_path_1:
  assumes "b \<in> set (adjacent gs a)" and "b \<noteq> a"
  shows "shortest_path gs a b 1"
proof -
  have "walk gs a (Suc 0) b" by (rule walk_step[OF walk_refl assms(1)])
  moreover have "1 \<le> m" if "walk gs a m b" for m
  proof (cases m)
    case 0
    with that assms(2) show ?thesis by (auto dest: walk_zero)
  qed simp
  ultimately show ?thesis by (simp add: shortest_path_def)
qed

lemma shortest_path_2:
  assumes "b \<in> set (adjacent gs a)" and "c \<in> set (adjacent gs b)"
    and "c \<noteq> a" and "c \<notin> set (adjacent gs a)"
  shows "shortest_path gs a c 2"
proof -
  have "walk gs a (Suc (Suc 0)) c"
    by (rule walk_step[OF walk_step[OF walk_refl assms(1)] assms(2)])
  then have "walk gs a 2 c" by (simp add: numeral_2_eq_2)
  moreover have "2 \<le> m" if w: "walk gs a m c" for m
  proof (rule ccontr)
    assume "\<not> 2 \<le> m"
    then consider "m = 0" | "m = Suc 0" by fastforce
    then show False
    proof cases
      case 1
      with w assms(3) show False by (auto dest: walk_zero)
    next
      case 2
      with w obtain x where "walk gs a 0 x" "c \<in> set (adjacent gs x)"
        by (auto dest: walk_Suc)
      with assms(4) show False by (auto dest: walk_zero)
    qed
  qed
  ultimately show ?thesis by (simp add: shortest_path_def)
qed

lemma bfs_inv_head:
  assumes "bfs_inv gs s t ((cur, D) # Q) vis"
  shows "cur \<in> vis" and "shortest_path gs s cur D"
  using assms by (auto simp: bfs_inv_def shortest_path_def)

lemma bfs_inv_last:
  assumes "bfs_inv gs s t ((cur, D) # Q @ [(c, n)]) vis"
  shows "shortest_path gs s c n"
  using assms by (auto simp: bfs_inv_def shortest_path_def)

section \<open>Speed propagation\<close>

lemma same_static_refl: "same_static g g"
  by (simp add: same_static_def)

lemma same_static_trans: "same_static g g' \<Longrightarrow> same_static g' g'' \<Longrightarrow> same_static g g''"
  by (simp add: same_static_def)

lemma speed_frame_refl: "speed_frame W gs gs"
  by (simp add: speed_frame_def list_all2_refl same_static_refl)

lemma speed_frame_mono: "speed_frame W gs gs' \<Longrightarrow> W \<subseteq> W' \<Longrightarrow> speed_frame W' gs gs'"
  unfolding speed_frame_def
  by (erule list_all2_mono) auto

lemma speed_frame_trans:
  assumes "speed_frame W gs gs'" and "speed_frame W gs' gs''"
  shows "speed_frame W gs gs''"
  using assms unfolding speed_frame_def
proof (rule list_all2_trans[rotated])
  fix a b c
  assume "same_static a b \<and> (gid a \<notin> W \<longrightarrow> b = a)"
    and "same_static b c \<and> (gid b \<notin> W \<longrightarrow> c = b)"
  then show "same_static a c \<and> (gid a \<notin> W \<longrightarrow> c = a)"
    by (auto intro: same_static_trans simp: same_static_def)
qed

lemma speed_frame_lookup:
  assumes "speed_frame W gs gs'"
  shows "rel_option (\<lambda>g g'. same_static g g' \<and> (gid g \<notin> W \<longrightarrow> g' = g))
           (lookup_gear gs i) (lookup_gear gs' i)"
  using assms unfolding speed_frame_def lookup_gear_def
  by (induction rule: list_all2_induct) (auto simp: same_static_def)

lemma speed_frame_adjacent:
  assumes "speed_frame W gs gs'"
  shows "adjacent gs' i = adjacent gs i"
  using speed_frame_lookup[OF assms, of i]
  by (auto simp: adjacent_def same_static_def elim!: option.rel_cases)

lemma set_speed_frame: "speed_frame {c} gs (set_speed cur c gs)"
proof (cases "lookup_gear gs cur")
  case None
  then show ?thesis by (simp add: set_speed_def speed_frame_refl)
next
  case (Some g)
  then show ?thesis
    by (simp add: set_speed_def speed_frame_def update_gear_def list_all2_map2
        same_static_def Let_def list_all2_refl)
qed

lemma speed_scan_frame:
  assumes "speed_scan cur cs gs queue visited = (gs', queue', visited')"
  shows "speed_frame (set cs - visited) gs gs'
       \<and> set queue' = set queue \<union> (set cs - visited)
       \<and> visited' = visited \<union> set cs"
  using assms
proof (induction cs arbitrary: gs queue visited)
  case Nil
  then show ?case by (simp add: speed_frame_refl)
next
  case (Cons c cs)
  show ?case
  proof (cases "c \<in> visited")
    case True
    with Cons.prems have "speed_scan cur cs gs queue visited = (gs', queue', visited')"
      by simp
    from Cons.IH[OF this] True show ?thesis
      by (auto elim: speed_frame_mono)
  next
    case False
    with Cons.prems
    have "speed_scan cur cs (set_speed cur c gs) (queue @ [c]) (insert c visited)
            = (gs', queue', visited')"
      by simp
    from Cons.IH[OF this]
    have fr: "speed_frame (set cs - insert c visited) (set_speed cur c gs) gs'"
      and q: "set queue' = set (queue @ [c]) \<union> (set cs - insert c visited)"
      and v: "visited' = insert c visited \<union> set cs"
      by simp_all
    have "speed_frame (set (c # cs) - visited) gs (set_speed cur c gs)"
      using False by (intro speed_frame_mono[OF set_speed_frame]) simp
    moreover have "speed_frame (set (c # cs) - visited) (set_speed cur c gs) gs'"
      by (rule speed_frame_mono[OF fr]) auto
    ultimately have "speed_frame (set (c # cs) - visited) gs gs'"
      by (rule speed_frame_trans)
    with q v False show ?thesis by auto
  qed
qed

lemma speed_bfs_frame:
  assumes "set queue \<subseteq> W" and "\<forall>a\<in>W. set (adjacent gs a) \<subseteq> W"
  shows "speed_frame (W - visited) gs (speed_bfs gs queue visited)"
  using assms
proof (induction gs queue visited rule: speed_bfs.induct)
  case (1 gs visited)
  then show ?case by (simp add: speed_frame_refl)
next
  case (2 gs current queue visited)
  obtain gs' queue' visited'
    where scan: "speed_scan current (adjacent gs current) gs queue visited
                   = (gs', queue', visited')"
    by (cases "speed_scan current (adjacent gs current) gs queue visited") auto
  from speed_scan_frame[OF scan]
  have fr: "speed_frame (set (adjacent gs current) - visited) gs gs'"
    and q: "set queue' = set queue \<union> (set (adjacent gs current) - visited)"
    and v: "visited' = visited \<union> set (adjacent gs current)"
    by simp_all
  have cur: "set (adjacent gs current) \<subseteq> W" using "2.prems" by simp
  have fr1: "speed_frame (W - visited) gs gs'"
    by (rule speed_frame_mono[OF fr]) (use cur in auto)
  have "set queue' \<subseteq> W" using q cur "2.prems"(1) by auto
  moreover have "\<forall>a\<in>W. set (adjacent gs' a) \<subseteq> W"
    using "2.prems"(2) speed_frame_adjacent[OF fr] by simp
  ultimately have "speed_frame (W - visited') gs' (speed_bfs gs' queue' visited')"
    using "2.IH"[OF scan[symmetric] refl] by simp
  then have "speed_frame (W - visited) gs' (speed_bfs gs' queue' visited')"
    by (rule speed_frame_mono) (use v in auto)
  with fr1 have "speed_frame (W - visited) gs (speed_bfs gs' queue' visited')"
    by (rule speed_frame_trans)
  with scan show ?case by simp
qed

lemma lookup_gear_update:
  assumes "\<And>g. gid (f g) = gid g"
  shows "lookup_gear (update_gear c f gs) i =
           (if i = c then map_option f (lookup_gear gs i) else lookup_gear gs i)"
  using assms by (induction gs) (auto simp: lookup_gear_def update_gear_def)

lemma reachable_refl: "reachable gs a a"
  by (simp add: reachable_def)

lemma reachable_step: "reachable gs a b \<Longrightarrow> c \<in> set (adjacent gs b) \<Longrightarrow> reachable gs a c"
  unfolding reachable_def by (erule rtrancl_into_rtrancl) simp

lemma reachable_closed:
  assumes "reachable gs a b" and "a \<in> V" and "\<forall>u\<in>V. set (adjacent gs u) \<subseteq> V"
  shows "b \<in> V"
  using assms unfolding reachable_def
  by (induction rule: rtrancl_induct) auto

lemma adjacent_set_speed: "adjacent (set_speed cur c gs) i = adjacent gs i"
  by (rule speed_frame_adjacent[OF set_speed_frame])

lemma walk_reachable: "walk gs a n b \<Longrightarrow> reachable gs a b"
  by (induction rule: walk.induct) (auto intro: reachable_refl reachable_step)

lemma reachable_walk: "reachable gs a b \<Longrightarrow> \<exists>n. walk gs a n b"
  unfolding reachable_def
proof (induction rule: rtrancl_induct)
  case base
  show ?case by (rule exI[of _ 0]) (rule walk_refl)
next
  case (step y z)
  then obtain n where "walk gs a n y" by blast
  moreover from step.hyps(2) have "z \<in> set (adjacent gs y)" by simp
  ultimately have "walk gs a (Suc n) z" by (rule walk_step)
  then show ?case by blast
qed

lemma shortest_path_exists:
  assumes "walk gs a n b"
  shows "\<exists>m. shortest_path gs a b m"
proof -
  define m where "m = (LEAST k. walk gs a k b)"
  have "walk gs a m b" unfolding m_def using assms by (rule LeastI)
  moreover have "\<forall>k. walk gs a k b \<longrightarrow> m \<le> k" unfolding m_def by (simp add: Least_le)
  ultimately show ?thesis unfolding shortest_path_def by blast
qed

lemma layer_inv_set_speed:
  assumes inv: "layer_inv d gs V" and cur: "cur \<in> V" and c: "c \<notin> V"
    and adj: "c \<in> set (adjacent gs cur)"
    and spc: "shortest_path gs d cur D" and spn: "shortest_path gs d c (Suc D)"
  shows "layer_inv d (set_speed cur c gs) (insert c V)"
proof -
  from adj obtain p where p: "lookup_gear gs cur = Some p" and cp: "c \<in> set (connectedTo p)"
    by (cases "lookup_gear gs cur") (auto simp: adjacent_def)
  define F :: "gear \<Rightarrow> gear" where "F = (\<lambda>g. g\<lparr>rpm := rpm p * (real_of_int (teeth (params p)) / real_of_int (teeth (params g))),
                              rotationDirection := - rotationDirection p\<rparr>)"
  have gs1: "set_speed cur c gs = update_gear c F gs"
    using p by (simp add: set_speed_def F_def Let_def)
  have Fgid: "\<And>g. gid (F g) = gid g" by (simp add: F_def)
  have look: "\<And>i. i \<noteq> c \<Longrightarrow> lookup_gear (update_gear c F gs) i = lookup_gear gs i"
    by (simp add: lookup_gear_update[OF Fgid])
  have sp: "\<And>a b n. shortest_path (update_gear c F gs) a b n = shortest_path gs a b n"
    unfolding gs1[symmetric] by (rule shortest_path_cong) (rule adjacent_set_speed)
  have curc: "cur \<noteq> c" using cur c by auto
  show ?thesis
    unfolding layer_inv_def gs1
  proof (intro ballI impI)
    fix g1
    assume "g1 \<in> set (update_gear c F gs)" and g1: "gid g1 \<in> insert c V \<and> gid g1 \<noteq> d"
    then obtain g where g: "g \<in> set gs" and g1_def: "g1 = (if gid g = c then F g else g)"
      by (auto simp: update_gear_def)
    show "driven_at d (update_gear c F gs) (insert c V) g1"
    proof (cases "gid g = c")
      case True
      then have "g1 = F g" using g1_def by simp
      then have "gid g1 = c" and "params g1 = params g"
        and "rpm g1 = rpm p * (real_of_int (teeth (params p)) / real_of_int (teeth (params g)))"
        and "rotationDirection g1 = - rotationDirection p"
        using True by (simp_all add: F_def)
      then show ?thesis
        unfolding driven_at_def sp using look[OF curc] p cp cur spc spn
        by (intro bexI[of _ cur] exI[of _ p] exI[of _ D]) simp_all
    next
      case False
      then have same: "g1 = g" using g1_def by simp
      with g1 False have "gid g \<in> V \<and> gid g \<noteq> d" by auto
      with inv g have "driven_at d gs V g" by (simp add: layer_inv_def)
      then obtain c' p' n where c': "c' \<in> V" and p': "lookup_gear gs c' = Some p'"
        and rest: "shortest_path gs d c' n" "shortest_path gs d (gid g) (Suc n)"
          "gid g \<in> set (connectedTo p')"
          "rpm g = rpm p' * (real_of_int (teeth (params p')) / real_of_int (teeth (params g)))"
          "rotationDirection g = - rotationDirection p'"
        unfolding driven_at_def by blast
      have "c' \<noteq> c" using c' c by auto
      from look[OF this] p' rest c' show ?thesis
        unfolding driven_at_def same sp
        by (intro bexI[of _ c'] exI[of _ p'] exI[of _ n]) simp_all
    qed
  qed
qed

text \<open>The propagation visits the gears in layers: its queue, read with the distance of
  each gear from the driver, satisfies the invariant of the breadth-first search (for
  a target that no gear references), and every gear it visits is driven from the
  layer before.\<close>

lemma speed_scan_layers:
  assumes "speed_scan cur cs gs queue visited = (gs', queue', visited')"
    and "bfs_inv gs d t ((cur, D) # Q) visited" and "map fst Q = queue"
    and "layer_inv d gs visited" and "set cs \<subseteq> set (adjacent gs cur)"
    and "t \<notin> neighbour_ids gs"
  shows "\<exists>Q'. map fst Q' = queue' \<and> bfs_inv gs' d t ((cur, D) # Q') visited'
            \<and> layer_inv d gs' visited' \<and> set cs \<subseteq> visited'"
  using assms
proof (induction cs arbitrary: gs queue visited Q)
  case Nil
  then show ?case by auto
next
  case (Cons c cs)
  show ?case
  proof (cases "c \<in> visited")
    case True
    with Cons.prems have "speed_scan cur cs gs queue visited = (gs', queue', visited')"
      by simp
    from Cons.IH[OF this Cons.prems(2,3,4) _ Cons.prems(6)] Cons.prems(5)
    obtain Q' where Q': "map fst Q' = queue'" "bfs_inv gs' d t ((cur, D) # Q') visited'"
      "layer_inv d gs' visited'" "set cs \<subseteq> visited'"
      by auto
    from Q'(2) have "fst ` set ((cur, D) # Q') \<subseteq> visited'" by (simp add: bfs_inv_def)
    have "visited \<subseteq> visited'"
      using speed_scan_frame[OF \<open>speed_scan cur cs gs queue visited = (gs', queue', visited')\<close>]
      by auto
    with True Q' show ?thesis by (intro exI[of _ Q']) auto
  next
    case False
    let ?gs1 = "set_speed cur c gs"
    let ?Q1 = "Q @ [(c, D + 1)]"
    from False Cons.prems
    have scan: "speed_scan cur cs ?gs1 (queue @ [c]) (insert c visited) = (gs', queue', visited')"
      by simp
    have cadj: "c \<in> set (adjacent gs cur)" using Cons.prems(5) by simp
    then have "c \<in> neighbour_ids gs" using adjacent_subset[of gs cur] by blast
    with Cons.prems(6) have ct: "c \<noteq> t" by auto
    have push: "bfs_inv gs d t ((cur, D) # ?Q1) (insert c visited)"
      using Cons.prems(2) cadj False ct by (rule bfs_inv_push)
    have adj1: "\<And>i. adjacent ?gs1 i = adjacent gs i" by (rule adjacent_set_speed)
    have inv1: "bfs_inv ?gs1 d t ((cur, D) # ?Q1) (insert c visited)"
      using push by (simp only: bfs_inv_cong[OF adj1])
    have "layer_inv d ?gs1 (insert c visited)"
    proof (rule layer_inv_set_speed[OF Cons.prems(4) _ False cadj])
      show "cur \<in> visited" by (rule bfs_inv_head(1)[OF Cons.prems(2)])
      show "shortest_path gs d cur D" by (rule bfs_inv_head(2)[OF Cons.prems(2)])
      from bfs_inv_last[OF push] show "shortest_path gs d c (Suc D)" by simp
    qed
    moreover have "map fst ?Q1 = queue @ [c]" using Cons.prems(3) by simp
    moreover have "set cs \<subseteq> set (adjacent ?gs1 cur)" using Cons.prems(5) by (simp add: adj1)
    moreover have "t \<notin> neighbour_ids ?gs1"
      using Cons.prems(6) by (simp add: neighbour_ids_set_speed)
    ultimately obtain Q' where Q': "map fst Q' = queue'"
      "bfs_inv gs' d t ((cur, D) # Q') visited'" "layer_inv d gs' visited'" "set cs \<subseteq> visited'"
      using Cons.IH[OF scan inv1] by blast
    have "insert c visited \<subseteq> visited'" using speed_scan_frame[OF scan] by auto
    with Q' show ?thesis by (intro exI[of _ Q']) auto
  qed
qed

lemma speed_bfs_layers:
  assumes "bfs_inv gs d t Q visited" and "map fst Q = queue"
    and "layer_inv d gs visited" and "t \<notin> neighbour_ids gs"
  shows "\<exists>V. visited \<subseteq> V \<and> (\<forall>a\<in>V. set (adjacent gs a) \<subseteq> V)
            \<and> layer_inv d (speed_bfs gs queue visited) V"
  using assms
proof (induction gs queue visited arbitrary: Q rule: speed_bfs.induct)
  case (1 gs visited)
  then have "Q = []" by simp
  with "1.prems"(1) have "\<forall>a\<in>visited. set (adjacent gs a) \<subseteq> visited"
    by (simp add: bfs_inv_def)
  with "1.prems"(3) show ?case by (intro exI[of _ visited]) simp
next
  case (2 gs current queue visited)
  from "2.prems"(2) obtain D Q0 where Q: "Q = (current, D) # Q0" and Q0: "map fst Q0 = queue"
    by (cases Q) auto
  obtain gs' queue' visited'
    where scan: "speed_scan current (adjacent gs current) gs queue visited
                   = (gs', queue', visited')"
    by (cases "speed_scan current (adjacent gs current) gs queue visited") auto
  from speed_scan_frame[OF scan]
  have fr: "speed_frame (set (adjacent gs current) - visited) gs gs'"
    and v: "visited' = visited \<union> set (adjacent gs current)"
    by simp_all
  have adj: "\<And>i. adjacent gs' i = adjacent gs i"
    by (rule speed_frame_adjacent[OF fr])
  from speed_scan_layers[OF scan "2.prems"(1)[unfolded Q] Q0 "2.prems"(3) subset_refl "2.prems"(4)]
  obtain Q' where Q': "map fst Q' = queue'" "bfs_inv gs' d t ((current, D) # Q') visited'"
    "layer_inv d gs' visited'" "set (adjacent gs current) \<subseteq> visited'"
    by blast
  have "bfs_inv gs' d t Q' visited'"
    using Q'(2) by (rule bfs_inv_pop) (simp add: adj Q'(4))
  moreover have "t \<notin> neighbour_ids gs'"
    using speed_scan_measure[OF scan adjacent_subset] "2.prems"(4) by simp
  ultimately obtain V where V: "visited' \<subseteq> V" "\<forall>a\<in>V. set (adjacent gs' a) \<subseteq> V"
    "layer_inv d (speed_bfs gs' queue' visited') V"
    using "2.IH"[OF scan[symmetric] refl _ Q'(1) Q'(3)] by blast
  show ?case
    using V scan v adj by (intro exI[of _ V]) auto
qed

lemma find_Some_mem: "find P xs = Some x \<Longrightarrow> x \<in> set xs \<and> P x"
  by (induction xs) (auto split: if_splits)

lemma find_driver_mem: "find_driver gs = Some d \<Longrightarrow> d \<in> set gs"
proof (cases "find isDriver gs")
  case None
  assume "find_driver gs = Some d"
  with None show ?thesis by (cases gs) (auto simp: find_driver_def)
next
  case (Some g)
  assume "find_driver gs = Some d"
  with Some have "find isDriver gs = Some d" by (simp add: find_driver_def)
  then show ?thesis by (simp add: find_Some_mem)
qed

lemma find_driver_None: "find_driver gs = None \<longleftrightarrow> gs = []"
  by (cases gs) (auto simp: find_driver_def split: option.splits)

lemma calculateGearSpeeds_Some:
  assumes "find_driver (gears s) = Some d"
  shows "gears (calculateGearSpeeds s) =
           speed_bfs (update_gear (gid d) (set_driver_speed (inputRPM s)) (gears s))
             [gid d] {gid d}"
  using assms unfolding calculateGearSpeeds_def set_driver_speed_def[abs_def]
  by (simp add: Let_def del: speed_bfs.simps)

lemma driver_update_frame:
  "speed_frame {i} gs (update_gear i (set_driver_speed r) gs)"
  by (simp add: speed_frame_def update_gear_def list_all2_map2 same_static_def
      set_driver_speed_def list_all2_refl)

lemma reachable_cong:
  assumes "\<And>i. adjacent gs' i = adjacent gs i"
  shows "reachable gs' a b = reachable gs a b"
  by (simp add: reachable_def assms)

lemma calculateGearSpeeds_frame:
  assumes drv: "find_driver (gears s) = Some d"
  shows "speed_frame {v. reachable (gears s) (gid d) v} (gears s) (gears (calculateGearSpeeds s))"
    and "list_all2 (\<lambda>g g'. gid g = gid d \<longrightarrow> g' = set_driver_speed (inputRPM s) g)
           (gears s) (gears (calculateGearSpeeds s))"
proof -
  let ?gs1 = "update_gear (gid d) (set_driver_speed (inputRPM s)) (gears s)"
  let ?W = "{v. reachable (gears s) (gid d) v}"
  have fr0: "speed_frame {gid d} (gears s) ?gs1" by (rule driver_update_frame)
  have adj: "\<And>i. adjacent ?gs1 i = adjacent (gears s) i"
    by (rule speed_frame_adjacent[OF fr0])
  have "set [gid d] \<subseteq> ?W" by (simp add: reachable_refl)
  moreover have "\<forall>a\<in>?W. set (adjacent ?gs1 a) \<subseteq> ?W"
    using adj by (auto intro: reachable_step)
  ultimately have fr1: "speed_frame (?W - {gid d}) ?gs1 (speed_bfs ?gs1 [gid d] {gid d})"
    by (rule speed_bfs_frame)
  have "speed_frame ?W (gears s) ?gs1"
    by (rule speed_frame_mono[OF fr0]) (simp add: reachable_refl)
  moreover have "speed_frame ?W ?gs1 (speed_bfs ?gs1 [gid d] {gid d})"
    by (rule speed_frame_mono[OF fr1]) auto
  ultimately show "speed_frame ?W (gears s) (gears (calculateGearSpeeds s))"
    unfolding calculateGearSpeeds_Some[OF drv] by (rule speed_frame_trans)
  have "list_all2 (\<lambda>g g'. gid g = gid d \<longrightarrow> g' = set_driver_speed (inputRPM s) g) (gears s) ?gs1"
    by (simp add: update_gear_def list_all2_map2 list_all2_refl)
  moreover have "list_all2 (\<lambda>g g'. same_static g g' \<and> (gid g \<notin> ?W - {gid d} \<longrightarrow> g' = g))
      ?gs1 (speed_bfs ?gs1 [gid d] {gid d})"
    using fr1 by (simp add: speed_frame_def)
  moreover have "list_all2 (\<lambda>g g1. gid g1 = gid g) (gears s) ?gs1"
    using fr0 unfolding speed_frame_def
    by (rule list_all2_mono) (simp add: same_static_def)
  ultimately show "list_all2 (\<lambda>g g'. gid g = gid d \<longrightarrow> g' = set_driver_speed (inputRPM s) g)
           (gears s) (gears (calculateGearSpeeds s))"
    unfolding calculateGearSpeeds_Some[OF drv]
    by (auto simp: list_all2_conv_all_nth)
qed

lemma calculateGearSpeeds_layers:
  assumes drv: "find_driver (gears s) = Some d"
  shows "\<exists>V. (\<forall>v. reachable (gears s) (gid d) v \<longrightarrow> v \<in> V)
            \<and> layer_inv (gid d) (gears (calculateGearSpeeds s)) V"
proof -
  let ?gs1 = "update_gear (gid d) (set_driver_speed (inputRPM s)) (gears s)"
  have fr0: "speed_frame {gid d} (gears s) ?gs1" by (rule driver_update_frame)
  have adj: "\<And>i. adjacent ?gs1 i = adjacent (gears s) i"
    by (rule speed_frame_adjacent[OF fr0])
  have reach: "\<And>a b. reachable ?gs1 a b = reachable (gears s) a b"
    by (rule reachable_cong[OF adj])
  have "finite (insert (gid d) (neighbour_ids ?gs1))"
    by (simp add: finite_neighbour_ids)
  then obtain t where t: "t \<notin> insert (gid d) (neighbour_ids ?gs1)"
    using ex_new_if_finite[OF infinite_UNIV_nat] by blast
  have "bfs_inv ?gs1 (gid d) t [(gid d, 0)] {gid d}"
    using t by (auto simp: bfs_inv_def intro: walk_refl)
  moreover have "layer_inv (gid d) ?gs1 {gid d}" by (simp add: layer_inv_def)
  moreover have "t \<notin> neighbour_ids ?gs1" using t by simp
  ultimately have "\<exists>V. {gid d} \<subseteq> V \<and> (\<forall>a\<in>V. set (adjacent ?gs1 a) \<subseteq> V)
          \<and> layer_inv (gid d) (speed_bfs ?gs1 [gid d] {gid d}) V"
    by (intro speed_bfs_layers[where Q = "[(gid d, 0)]" and t = t]) simp_all
  then obtain V where V: "gid d \<in> V" "\<forall>a\<in>V. set (adjacent ?gs1 a) \<subseteq> V"
    "layer_inv (gid d) (speed_bfs ?gs1 [gid d] {gid d}) V"
    by auto
  have "\<forall>v. reachable (gears s) (gid d) v \<longrightarrow> v \<in> V"
    using V(1,2) reach reachable_closed[of ?gs1 "gid d" _ V] by blast
  with V(3) show ?thesis
    unfolding calculateGearSpeeds_Some[OF drv] by blast
qed


lemma calculateGearSpeeds_adjacent:
  "adjacent (gears (calculateGearSpeeds s)) i = adjacent (gears s) i"
proof (cases "find_driver (gears s)")
  case None
  then show ?thesis by (simp add: calculateGearSpeeds_def)
next
  case (Some d)
  show ?thesis by (rule speed_frame_adjacent[OF calculateGearSpeeds_frame(1)[OF Some]])
qed

lemma calculateGearSpeeds_driver:
  assumes drv: "find_driver (gears s) = Some d"
    and g: "g \<in> set (gears (calculateGearSpeeds s))" and eq: "gid g = gid d"
  shows "rpm g = inputRPM s" and "rotationDirection g = 1"
    and "\<exists>g0\<in>set (gears s). gid g0 = gid d \<and> params g = params g0"
proof -
  let ?gs' = "gears (calculateGearSpeeds s)"
  from g obtain k where k: "k < length ?gs'" and gk: "g = ?gs' ! k"
    by (auto simp: in_set_conv_nth)
  from calculateGearSpeeds_frame[OF drv]
  have len: "length (gears s) = length ?gs'"
    and upd: "gid (gears s ! k) = gid d \<longrightarrow> ?gs' ! k = set_driver_speed (inputRPM s) (gears s ! k)"
    and same: "same_static (gears s ! k) (?gs' ! k)"
    using k by (auto simp: list_all2_conv_all_nth speed_frame_def)
  from same eq gk have id: "gid (gears s ! k) = gid d" by (simp add: same_static_def)
  with upd gk show "rpm g = inputRPM s" "rotationDirection g = 1"
    by (simp_all add: set_driver_speed_def)
  have "gears s ! k \<in> set (gears s)" using k len by simp
  moreover from same gk have "params g = params (gears s ! k)" by (simp add: same_static_def)
  ultimately show "\<exists>g0\<in>set (gears s). gid g0 = gid d \<and> params g = params g0"
    using id by blast
qed

lemma calculateGearSpeeds_parent:
  assumes drv: "find_driver (gears s) = Some d"
    and g: "g \<in> set (gears (calculateGearSpeeds s))"
    and ne: "gid g \<noteq> gid d" and reach: "reachable (gears s) (gid d) (gid g)"
  shows "\<exists>n. \<exists>p\<in>set (gears (calculateGearSpeeds s)).
           shortest_path (gears s) (gid d) (gid p) n \<and>
           shortest_path (gears s) (gid d) (gid g) (Suc n) \<and>
           gid g \<in> set (connectedTo p) \<and>
           rpm g = rpm p * (real_of_int (teeth (params p)) / real_of_int (teeth (params g))) \<and>
           rotationDirection g = - rotationDirection p"
proof -
  let ?gs' = "gears (calculateGearSpeeds s)"
  have sp: "\<And>a b n. shortest_path ?gs' a b n = shortest_path (gears s) a b n"
    by (rule shortest_path_cong) (rule calculateGearSpeeds_adjacent)
  from calculateGearSpeeds_layers[OF drv]
  obtain V where V: "\<forall>v. reachable (gears s) (gid d) v \<longrightarrow> v \<in> V"
    and inv: "layer_inv (gid d) ?gs' V"
    by blast
  from reach V have "gid g \<in> V" by simp
  with inv g ne have "driven_at (gid d) ?gs' V g" by (simp add: layer_inv_def)
  then obtain c p n where p: "lookup_gear ?gs' c = Some p"
    and rest: "shortest_path ?gs' (gid d) c n" "shortest_path ?gs' (gid d) (gid g) (Suc n)"
      "gid g \<in> set (connectedTo p)"
      "rpm g = rpm p * (real_of_int (teeth (params p)) / real_of_int (teeth (params g)))"
      "rotationDirection g = - rotationDirection p"
    unfolding driven_at_def by blast
  from lookup_gear_mem[OF p] have "p \<in> set ?gs'" and "gid p = c" by simp_all
  with rest show ?thesis
    unfolding sp by (intro exI[of _ n] bexI[of _ p]) simp_all
qed

lemma shortest_path_Suc_reachable:
  assumes "shortest_path gs a b (Suc n)"
  shows "b \<noteq> a" and "reachable gs a b"
proof -
  from assms have w: "walk gs a (Suc n) b" and least: "\<forall>m. walk gs a m b \<longrightarrow> Suc n \<le> m"
    by (simp_all add: shortest_path_def)
  show "b \<noteq> a"
  proof
    assume "b = a"
    then have "walk gs a 0 b" by (simp add: walk_refl)
    with least show False by fastforce
  qed
  from w show "reachable gs a b" by (rule walk_reachable)
qed

lemma calculateGearSpeeds_direction:
  assumes drv: "find_driver (gears s) = Some d"
    and g: "g \<in> set (gears (calculateGearSpeeds s))"
    and sp: "shortest_path (gears s) (gid d) (gid g) n"
  shows "rotationDirection g = (- 1) ^ n"
  using g sp
proof (induction n arbitrary: g)
  case 0
  then have "walk (gears s) (gid d) 0 (gid g)" by (simp add: shortest_path_def)
  then have "gid g = gid d" by (rule walk_zero)
  from calculateGearSpeeds_driver(2)[OF drv "0.prems"(1) this] show ?case by simp
next
  case (Suc n)
  from shortest_path_Suc_reachable[OF Suc.prems(2)]
  have "gid g \<noteq> gid d" "reachable (gears s) (gid d) (gid g)" by simp_all
  from calculateGearSpeeds_parent[OF drv Suc.prems(1) this]
  obtain m p where p: "p \<in> set (gears (calculateGearSpeeds s))"
    and sp_p: "shortest_path (gears s) (gid d) (gid p) m"
    and sp_g: "shortest_path (gears s) (gid d) (gid g) (Suc m)"
    and dir: "rotationDirection g = - rotationDirection p"
    by blast
  from shortest_path_unique[OF sp_g Suc.prems(2)] have "m = n" by simp
  with Suc.IH[OF p] sp_p have "rotationDirection p = (- 1) ^ n" by simp
  with dir show ?case by simp
qed

lemma calculateGearSpeeds_ratio:
  assumes drv: "find_driver (gears s) = Some d"
    and dist: "distinct (map gid (gears s))"
    and teeth: "\<forall>g\<in>set (gears s). teeth (params g) \<noteq> 0"
    and g: "g \<in> set (gears (calculateGearSpeeds s))"
    and sp: "shortest_path (gears s) (gid d) (gid g) n"
  shows "rpm g = inputRPM s * (real_of_int (teeth (params d)) / real_of_int (teeth (params g)))"
  using g sp
proof (induction n arbitrary: g)
  case 0
  then have "walk (gears s) (gid d) 0 (gid g)" by (simp add: shortest_path_def)
  then have eq: "gid g = gid d" by (rule walk_zero)
  from calculateGearSpeeds_driver(3)[OF drv "0.prems"(1) eq]
  obtain g0 where g0: "g0 \<in> set (gears s)" "gid g0 = gid d" "params g = params g0" by blast
  from find_driver_mem[OF drv] have "d \<in> set (gears s)" .
  with g0(1,2) dist have "g0 = d" by (meson distinct_map inj_onD)
  with g0(3) have "params g = params d" by simp
  moreover from teeth \<open>d \<in> set (gears s)\<close> have "teeth (params d) \<noteq> 0" by blast
  ultimately show ?case
    using calculateGearSpeeds_driver(1)[OF drv "0.prems"(1) eq] by simp
next
  case (Suc n)
  from shortest_path_Suc_reachable[OF Suc.prems(2)]
  have "gid g \<noteq> gid d" "reachable (gears s) (gid d) (gid g)" by simp_all
  from calculateGearSpeeds_parent[OF drv Suc.prems(1) this]
  obtain m p where p: "p \<in> set (gears (calculateGearSpeeds s))"
    and sp_p: "shortest_path (gears s) (gid d) (gid p) m"
    and sp_g: "shortest_path (gears s) (gid d) (gid g) (Suc m)"
    and r: "rpm g = rpm p * (real_of_int (teeth (params p)) / real_of_int (teeth (params g)))"
    by blast
  from shortest_path_unique[OF sp_g Suc.prems(2)] have "m = n" by simp
  with Suc.IH[OF p] sp_p
  have rp: "rpm p = inputRPM s * (real_of_int (teeth (params d)) / real_of_int (teeth (params p)))"
    by simp
  from p obtain k where k: "k < length (gears (calculateGearSpeeds s))"
    "gears (calculateGearSpeeds s) ! k = p"
    by (auto simp: in_set_conv_nth)
  from calculateGearSpeeds_frame(1)[OF drv] k
  have "k < length (gears s)" "params p = params (gears s ! k)"
    by (auto simp: speed_frame_def list_all2_conv_all_nth same_static_def)
  with teeth have "teeth (params p) \<noteq> 0" by (metis nth_mem)
  with r rp show ?case by simp
qed

lemma reachable_no_edges:
  assumes "adjacent gs a = []"
  shows "reachable gs a b \<longleftrightarrow> a = b"
proof
  assume "reachable gs a b"
  then show "a = b"
    unfolding reachable_def using assms
    by (induction rule: converse_rtrancl_induct) auto
next
  assume "a = b"
  then show "reachable gs a b" by (simp add: reachable_refl)
qed

section \<open>Evaluating concrete scenes\<close>

lemma distanceTo_x:
  "distanceTo \<lparr> pos_x = a, pos_y = b, pos_z = c \<rparr> \<lparr> pos_x = a', pos_y = b, pos_z = c \<rparr>
     = \<bar>a - a'\<bar>"
  by (simp add: distanceTo_def)

lemma sqrt_841: "sqrt 841 = 29"
  by (rule real_sqrt_unique) simp_all

lemmas eval_defs =
  initial_simulator_def default_form_def addGear_def selectGear_def GearGeometry_def
  or_default_def or_default_int_def Let_def updateSelectedGearPosition_def update_gear_def
  updateConnections_def clear_position_errors_def clear_moved_away_def
  clear_connections_def potentialConnections_def first_overlap_def checkGearsOverlap_def
  idealDistance_def currentDistance_def areGearsCompatible_def wouldCauseJamming_def
  adjacent_def lookup_gear_def connectGears_def push_connection_def surface_error_def
  play_def calculateGearSpeeds_def find_driver_def set_speed_def error_gear_def
  setOverlapState_def setJammingState_def clearIncompatibleState_def
  deleteSelectedGear_def

lemma sqrt_400: "sqrt 400 = 20"
  by (rule real_sqrt_unique) simp_all

lemma sqrt_441: "sqrt 441 = 21"
  by (rule real_sqrt_unique) simp_all

lemmas rect_eval = rectangle_scene_def unit_form_def eval_defs distanceTo_def
  sqrt_841 sqrt_400 sqrt_441

lemma chain_scene_gears:
  "map (\<lambda>g. (gid g, teeth (params g), connectedTo g, isDriver g)) (gears chain_scene)
     = [(1, 20, [2], True), (2, 30, [3, 1], False), (3, 15, [2], False)]"
  by (simp add: chain_scene_def eval_defs distanceTo_x)

lemma chain_scene_speeds:
  "map (\<lambda>g. (gid g, rpm g, rotationDirection g)) (gears (calculateGearSpeeds chain_scene))
     = [(1, 30, 1), (2, 20, - 1), (3, 40, 1)]"
  by (simp add: chain_scene_def eval_defs distanceTo_x)

lemma triangle_scene_gears:
  "map (\<lambda>g. (gid g, connectedTo g, incompatibleWith g, jammingError g)) (gears triangle_scene)
     = [(1, [3], Some 2, True), (2, [3], None, False), (3, [1, 2], None, False)]"
  by (simp add: triangle_scene_def eval_defs distanceTo_def sqrt_841)

section \<open>Claims about play and propagation\<close>

text \<open>
  C3: if some gear of the registry carries a jamming error when \<open>play\<close> is called, the
  call changes nothing: the playing flag is not written, no propagation runs, and
  the registry (so every rpm and rotation direction) is as before; the call shows
  the jamming message and ends with the exception raised while the log line is
  built. Otherwise \<open>play\<close> sets the playing flag and runs the propagation.
\<close>

theorem C3_play_refuses_when_jammed:
  "((\<exists>g\<in>set (gears s). jammingError g) \<longrightarrow>
       play s = (Some TypeError, s)
     \<and> isPlaying (snd (play s)) = isPlaying s
     \<and> map rpm (gears (snd (play s))) = map rpm (gears s)
     \<and> map rotationDirection (gears (snd (play s))) = map rotationDirection (gears s))
   \<and> (\<not> (\<exists>g\<in>set (gears s). jammingError g) \<longrightarrow>
       play s = (None, calculateGearSpeeds (s\<lparr>isPlaying := True\<rparr>)))"
proof (cases "find jammingError (gears s)")
  case None
  then have "\<not> (\<exists>g\<in>set (gears s). jammingError g)"
    by (simp add: find_None_iff_no_member)
  with None show ?thesis by (simp add: play_def)
next
  case (Some g)
  then have "\<exists>g\<in>set (gears s). jammingError g"
    using find_None_iff_no_member[of jammingError "gears s"] by auto
  with Some show ?thesis by (simp add: play_def)
qed

theorem C3_play_witness:
  "(\<exists>g\<in>set (gears triangle_scene). jammingError g)
   \<and> play triangle_scene = (Some TypeError, triangle_scene)
   \<and> \<not> (\<exists>g\<in>set (gears chain_scene). jammingError g)
   \<and> play chain_scene = (None, calculateGearSpeeds (chain_scene\<lparr>isPlaying := True\<rparr>))"
proof -
  have jam: "\<exists>g\<in>set (gears triangle_scene). jammingError g"
    by (simp add: triangle_scene_def eval_defs distanceTo_def sqrt_841)
  have ok: "\<not> (\<exists>g\<in>set (gears chain_scene). jammingError g)"
    by (simp add: chain_scene_def eval_defs distanceTo_x)
  from jam ok C3_play_refuses_when_jammed[of triangle_scene]
    C3_play_refuses_when_jammed[of chain_scene]
  show ?thesis by blast
qed

text \<open>
  C2: propagation gives the driver the input RPM and direction \<open>+1\<close>, and every gear
  it newly visits gets \<open>rpm = current.rpm * (current.teeth / connected.teeth)\<close> and the
  opposite direction of the gear it was visited from. As a property of the result:
  the search visits the gears in layers, so every gear reachable from the driver,
  other than the driver, at distance \<open>n + 1\<close> has a gear \<open>p\<close> at distance \<open>n\<close> that lists it
  in \<^verbatim>\<open>connectedTo\<close> and from whose final values its own follow by these two
  equations. Hence a gear at distance \<open>n\<close> turns in direction \<open>(-1)^n\<close>, and when ids are
  distinct and no tooth count is zero its speed is the input RPM times
  \<open>driver.teeth / teeth\<close>. For the chain with 20, 30 and 15 teeth driven at 30 RPM
  this gives the speeds 30, 20, 40 and the directions \<open>+1\<close>, \<open>-1\<close>, \<open>+1\<close>.
\<close>

theorem C2_speed_propagation:
  assumes "find_driver (gears s) = Some d"
  shows "(\<forall>g\<in>set (gears (calculateGearSpeeds s)).
            gid g = gid d \<longrightarrow> rpm g = inputRPM s \<and> rotationDirection g = 1)
       \<and> (\<forall>g\<in>set (gears (calculateGearSpeeds s)).
            gid g \<noteq> gid d \<and> reachable (gears s) (gid d) (gid g) \<longrightarrow>
            (\<exists>n. \<exists>p\<in>set (gears (calculateGearSpeeds s)).
               shortest_path (gears s) (gid d) (gid p) n \<and>
               shortest_path (gears s) (gid d) (gid g) (Suc n) \<and>
               gid g \<in> set (connectedTo p) \<and>
               rpm g = rpm p * (real_of_int (teeth (params p)) / real_of_int (teeth (params g))) \<and>
               rotationDirection g = - rotationDirection p))
       \<and> (\<forall>g\<in>set (gears (calculateGearSpeeds s)). \<forall>n.
            shortest_path (gears s) (gid d) (gid g) n \<longrightarrow> rotationDirection g = (- 1) ^ n)
       \<and> (distinct (map gid (gears s)) \<and> (\<forall>g\<in>set (gears s). teeth (params g) \<noteq> 0) \<longrightarrow>
            (\<forall>g\<in>set (gears (calculateGearSpeeds s)).
               reachable (gears s) (gid d) (gid g) \<longrightarrow>
               rpm g = inputRPM s
                 * (real_of_int (teeth (params d)) / real_of_int (teeth (params g)))))"
proof (intro conjI ballI impI allI)
  fix g assume "g \<in> set (gears (calculateGearSpeeds s))" "gid g = gid d"
  then show "rpm g = inputRPM s" "rotationDirection g = 1"
    using calculateGearSpeeds_driver(1,2)[OF assms] by blast+
next
  fix g assume "g \<in> set (gears (calculateGearSpeeds s))"
    and "gid g \<noteq> gid d \<and> reachable (gears s) (gid d) (gid g)"
  then show "\<exists>n. \<exists>p\<in>set (gears (calculateGearSpeeds s)).
               shortest_path (gears s) (gid d) (gid p) n \<and>
               shortest_path (gears s) (gid d) (gid g) (Suc n) \<and>
               gid g \<in> set (connectedTo p) \<and>
               rpm g = rpm p * (real_of_int (teeth (params p)) / real_of_int (teeth (params g))) \<and>
               rotationDirection g = - rotationDirection p"
    using calculateGearSpeeds_parent[OF assms] by blast
next
  fix g n assume "g \<in> set (gears (calculateGearSpeeds s))"
    and "shortest_path (gears s) (gid d) (gid g) n"
  then show "rotationDirection g = (- 1) ^ n"
    by (rule calculateGearSpeeds_direction[OF assms])
next
  fix g
  assume h: "distinct (map gid (gears s)) \<and> (\<forall>g\<in>set (gears s). teeth (params g) \<noteq> 0)"
    and g: "g \<in> set (gears (calculateGearSpeeds s))"
    and "reachable (gears s) (gid d) (gid g)"
  then obtain n where "walk (gears s) (gid d) n (gid g)" using reachable_walk by blast
  then obtain m where "shortest_path (gears s) (gid d) (gid g) m"
    using shortest_path_exists by blast
  with h g show "rpm g = inputRPM s
                 * (real_of_int (teeth (params d)) / real_of_int (teeth (params g)))"
    using calculateGearSpeeds_ratio[OF assms] by blast
qed

theorem C2_speed_propagation_witness:
  "find_driver (gears chain_scene) = Some (hd (gears chain_scene))
   \<and> inputRPM chain_scene = 30
   \<and> map (\<lambda>g. (gid g, teeth (params g), connectedTo g)) (gears chain_scene)
       = [(1, 20, [2]), (2, 30, [3, 1]), (3, 15, [2])]
   \<and> shortest_path (gears chain_scene) 1 1 0
   \<and> shortest_path (gears chain_scene) 1 2 1
   \<and> shortest_path (gears chain_scene) 1 3 2
   \<and> map (\<lambda>g. (gid g, rpm g, rotationDirection g)) (gears (calculateGearSpeeds chain_scene))
       = [(1, 30, 1), (2, 20, - 1), (3, 40, 1)]"
proof -
  let ?G = "gears chain_scene"
  let ?G' = "gears (calculateGearSpeeds chain_scene)"
  have drv: "find_driver ?G = Some (hd ?G)"
    and rpm0: "inputRPM chain_scene = 30"
    and scene: "map (\<lambda>g. (gid g, teeth (params g), connectedTo g)) ?G
       = [(1, 20, [2]), (2, 30, [3, 1]), (3, 15, [2])]"
    and adj: "adjacent ?G (Suc 0) = [2]" "adjacent ?G 2 = [3, 1]"
    by (simp_all add: chain_scene_def eval_defs distanceTo_x)
  from scene obtain a b c where G: "?G = [a, b, c]"
    and a: "gid a = 1" "teeth (params a) = 20"
    and b: "gid b = 2" "teeth (params b) = 30"
    and c: "gid c = 3" "teeth (params c) = 15"
    by (auto simp: map_eq_Cons_conv)
  have d: "hd ?G = a" using G by simp
  have dist: "distinct (map gid ?G)" and teeth: "\<forall>g\<in>set ?G. teeth (params g) \<noteq> 0"
    using G a b c by simp_all
  have sp0: "shortest_path ?G 1 1 0" by (rule shortest_path_0)
  have sp1: "shortest_path ?G 1 2 1" by (rule shortest_path_1) (simp_all add: adj)
  have sp2: "shortest_path ?G 1 3 2" by (rule shortest_path_2[of 2]) (simp_all add: adj)
  have r2: "reachable ?G 1 2" using sp1 by (auto simp: shortest_path_def intro: walk_reachable)
  have r3: "reachable ?G 1 3" using sp2 by (auto simp: shortest_path_def intro: walk_reachable)
  from calculateGearSpeeds_frame(1)[OF drv] G
  obtain a' b' c' where G': "?G' = [a', b', c']"
    and same: "same_static a a'" "same_static b b'" "same_static c c'"
    by (auto simp: speed_frame_def list_all2_Cons1)
  have ids: "gid a' = 1" "gid b' = 2" "gid c' = 3"
    and ts: "teeth (params a') = 20" "teeth (params b') = 30" "teeth (params c') = 15"
    using same a b c by (simp_all add: same_static_def)
  note inst = C2_speed_propagation[OF drv, unfolded d a(1) a(2) rpm0]
  have mem: "a' \<in> set ?G'" "b' \<in> set ?G'" "c' \<in> set ?G'" using G' by simp_all
  from inst mem(1) ids(1) have va: "rpm a' = 30" "rotationDirection a' = 1" by blast+
  from inst mem(2) ids(2) sp1 have db: "rotationDirection b' = (- 1) ^ 1" by metis
  from inst mem(3) ids(3) sp2 have dc: "rotationDirection c' = (- 1) ^ 2" by metis
  from inst dist teeth mem(2) ids(2) r2
  have rb: "rpm b' = 30 * (real_of_int 20 / real_of_int (teeth (params b')))" by metis
  from inst dist teeth mem(3) ids(3) r3
  have rc: "rpm c' = 30 * (real_of_int 20 / real_of_int (teeth (params c')))" by metis
  have "map (\<lambda>g. (gid g, rpm g, rotationDirection g)) ?G'
       = [(1, 30, 1), (2, 20, - 1), (3, 40, 1)]"
    unfolding G' using ids va db dc rb rc ts by simp
  with drv rpm0 scene sp0 sp1 sp2 show ?thesis by blast
qed

text \<open>
  C4 as stated: after propagation every gear unreachable from the driver has
  \<open>rpm = 0\<close>, also after a rebuild has disconnected a gear and play is invoked again.
  Nothing resets \<^verbatim>\<open>rpm\<close>: in \<^const>\<open>stale_scene\<close> the second gear was driven at 30 RPM,
  then moved away; the rebuild emptied every \<^verbatim>\<open>connectedTo\<close>, and after the next
  \<open>play\<close> the gear, unreachable from the driver, still has 30 RPM.
\<close>

theorem C4_stale_rpm_counterexample:
  "find_driver (gears stale_scene) = Some (hd (gears stale_scene))
   \<and> gid (hd (gears stale_scene)) = 1
   \<and> \<not> reachable (gears stale_scene) 1 2
   \<and> map (\<lambda>g. (gid g, connectedTo g, rpm g)) (gears (snd (play stale_scene)))
       = [(1, [], 30), (2, [], 30)]"
proof -
  have "adjacent (gears stale_scene) 1 = []"
    by (simp add: stale_scene_def eval_defs distanceTo_x)
  then have "\<not> reachable (gears stale_scene) 1 2"
    by (simp add: reachable_no_edges)
  moreover have "find_driver (gears stale_scene) = Some (hd (gears stale_scene))"
    "gid (hd (gears stale_scene)) = 1"
    "map (\<lambda>g. (gid g, connectedTo g, rpm g)) (gears (snd (play stale_scene)))
       = [(1, [], 30), (2, [], 30)]"
    by (simp_all add: stale_scene_def eval_defs distanceTo_x)
  ultimately show ?thesis by blast
qed

text \<open>
  C4, amended: propagation does not modify any field of a gear that is unreachable
  from the driver through \<^verbatim>\<open>connectedTo\<close>; such a gear keeps the rpm it had before
  the call.
\<close>

theorem C4_unreachable_untouched:
  assumes "find_driver (gears s) = Some d"
  shows "list_all2 (\<lambda>g g'. gid g' = gid g \<and> (\<not> reachable (gears s) (gid d) (gid g) \<longrightarrow> g' = g))
           (gears s) (gears (calculateGearSpeeds s))"
  using calculateGearSpeeds_frame(1)[OF assms] unfolding speed_frame_def
  by (rule list_all2_mono) (simp add: same_static_def)

theorem C4_unreachable_untouched_witness:
  "find_driver (gears stale_scene) = Some (hd (gears stale_scene))
   \<and> \<not> reachable (gears stale_scene) (gid (hd (gears stale_scene))) 2
   \<and> map gid (gears stale_scene) = [1, 2]
   \<and> gears (calculateGearSpeeds stale_scene) ! 1 = gears stale_scene ! 1"
proof -
  have drv: "find_driver (gears stale_scene) = Some (hd (gears stale_scene))"
    and ids: "map gid (gears stale_scene) = [1, 2]" "gid (hd (gears stale_scene)) = 1"
    by (simp_all add: stale_scene_def eval_defs distanceTo_x)
  have "adjacent (gears stale_scene) 1 = []"
    by (simp add: stale_scene_def eval_defs distanceTo_x)
  then have unreach: "\<not> reachable (gears stale_scene) (gid (hd (gears stale_scene))) 2"
    by (simp add: reachable_no_edges ids)
  have len: "1 < length (gears stale_scene)" and second: "gid (gears stale_scene ! 1) = 2"
    using ids(1) by (auto simp: map_eq_Cons_conv)
  from C4_unreachable_untouched[OF drv] len second unreach
  have "gears (calculateGearSpeeds stale_scene) ! 1 = gears stale_scene ! 1"
    by (auto simp: list_all2_conv_all_nth)
  with drv unreach ids show ?thesis by blast
qed

text \<open>
  C10: when no gear is marked as driver, propagation falls back to the first gear of
  the registry, gives it the input RPM and direction \<open>+1\<close> and propagates from it;
  it returns without effect only when the registry is empty.
\<close>

theorem C10_first_gear_fallback:
  assumes "\<forall>g\<in>set (gears s). \<not> isDriver g"
  shows "(find_driver (gears s) = None \<longleftrightarrow> gears s = [])
       \<and> (gears s = [] \<longrightarrow> calculateGearSpeeds s = s)
       \<and> (gears s \<noteq> [] \<longrightarrow>
            find_driver (gears s) = Some (hd (gears s))
          \<and> gears (calculateGearSpeeds s) =
              speed_bfs (update_gear (gid (hd (gears s)))
                           (\<lambda>g. g\<lparr>rpm := inputRPM s, rotationDirection := 1\<rparr>) (gears s))
                [gid (hd (gears s))] {gid (hd (gears s))}
          \<and> gears (calculateGearSpeeds s) \<noteq> []
          \<and> rpm (hd (gears (calculateGearSpeeds s))) = inputRPM s
          \<and> rotationDirection (hd (gears (calculateGearSpeeds s))) = 1)"
proof (cases "gears s")
  case Nil
  then show ?thesis by (simp add: calculateGearSpeeds_def find_driver_def)
next
  case (Cons g rest)
  from assms have nodrv: "find isDriver (gears s) = None"
    by (simp add: find_None_iff_no_member)
  with Cons have drv: "find_driver (gears s) = Some g"
    by (simp add: find_driver_def)
  let ?gs' = "gears (calculateGearSpeeds s)"
  from calculateGearSpeeds_frame(2)[OF drv]
  have len: "length ?gs' = length (gears s)"
    and "gid (gears s ! 0) = gid g \<longrightarrow> ?gs' ! 0 = set_driver_speed (inputRPM s) (gears s ! 0)"
    using Cons by (auto simp: list_all2_conv_all_nth)
  with Cons have first: "?gs' ! 0 = set_driver_speed (inputRPM s) g" by simp
  from len Cons have ne: "?gs' \<noteq> []" by auto
  then have "hd ?gs' = ?gs' ! 0" by (simp add: hd_conv_nth)
  with first have "rpm (hd ?gs') = inputRPM s" "rotationDirection (hd ?gs') = 1"
    by (simp_all add: set_driver_speed_def)
  moreover have "?gs' = speed_bfs (update_gear (gid g)
                           (\<lambda>g. g\<lparr>rpm := inputRPM s, rotationDirection := 1\<rparr>) (gears s))
                [gid g] {gid g}"
    using calculateGearSpeeds_Some[OF drv] by (simp only: set_driver_speed_def[abs_def])
  ultimately show ?thesis using Cons drv ne by (simp del: speed_bfs.simps)
qed

theorem C10_first_gear_fallback_witness:
  "map (\<lambda>g. (gid g, isDriver g)) (gears driverless_scene) = [(2, False), (3, False)]
   \<and> map (\<lambda>g. (gid g, rpm g, rotationDirection g)) (gears (calculateGearSpeeds driverless_scene))
       = [(2, 30, 1), (3, 60, - 1)]"
proof -
  have nodrv: "\<forall>g\<in>set (gears driverless_scene). \<not> isDriver g"
    and ids: "map (\<lambda>g. (gid g, isDriver g)) (gears driverless_scene) = [(2, False), (3, False)]"
    and vals: "map (\<lambda>g. (gid g, rpm g, rotationDirection g))
                 (gears (calculateGearSpeeds driverless_scene)) = [(2, 30, 1), (3, 60, - 1)]"
    by (simp_all add: driverless_scene_def chain_scene_def eval_defs distanceTo_x)
  from C10_first_gear_fallback[OF nodrv] ids vals show ?thesis by blast
qed

section \<open>Connecting two gears\<close>

lemma adjacent_push_connection:
  "adjacent (push_connection a b gs) i =
     (if i = a \<and> lookup_gear gs a \<noteq> None \<and> b \<notin> set (adjacent gs a)
      then adjacent gs a @ [b] else adjacent gs i)"
  unfolding push_connection_def adjacent_def
  by (subst lookup_gear_update) (auto split: option.splits)

lemma lookup_push_connection_None:
  "lookup_gear (push_connection a b gs) i = None \<longleftrightarrow> lookup_gear gs i = None"
  unfolding push_connection_def
  by (subst lookup_gear_update) auto

lemma connectGears_adds_edge:
  assumes "lookup_gear gs a \<noteq> None" and "lookup_gear gs b \<noteq> None"
  shows "b \<in> set (adjacent (connectGears a b gs) a)"
    and "a \<in> set (adjacent (connectGears a b gs) b)"
  using assms
  by (auto simp: connectGears_def adjacent_push_connection lookup_push_connection_None)

section \<open>Structure of the rebuild\<close>

lemma checkGearsOverlap_geometry:
  "same_geometry a a' \<Longrightarrow> same_geometry b b' \<Longrightarrow> checkGearsOverlap a' b' = checkGearsOverlap a b"
  by (simp add: same_geometry_def checkGearsOverlap_def idealDistance_def currentDistance_def)

lemma areGearsCompatible_geometry:
  "same_geometry a a' \<Longrightarrow> same_geometry b b' \<Longrightarrow> areGearsCompatible a' b' = areGearsCompatible a b"
  by (simp add: same_geometry_def areGearsCompatible_def)

lemma in_range_geometry:
  "same_geometry a a' \<Longrightarrow> same_geometry b b' \<Longrightarrow>
     \<bar>currentDistance a' b' - idealDistance a' b'\<bar> = \<bar>currentDistance a b - idealDistance a b\<bar>"
  by (simp add: same_geometry_def idealDistance_def currentDistance_def)

lemma distanceTo_sym: "distanceTo p q = distanceTo q p"
  by (simp add: distanceTo_def power2_commute)

lemma checkGearsOverlap_sym: "checkGearsOverlap a b = checkGearsOverlap b a"
  by (simp add: checkGearsOverlap_def idealDistance_def currentDistance_def distanceTo_sym add.commute)

lemma areGearsCompatible_sym: "areGearsCompatible a b = areGearsCompatible b a"
  by (simp add: areGearsCompatible_def abs_minus_commute)

lemma lookup_gear_rel:
  assumes "list_all2 R gs gs'" and "\<And>g g'. R g g' \<Longrightarrow> gid g' = gid g"
  shows "rel_option R (lookup_gear gs i) (lookup_gear gs' i)"
  using assms unfolding lookup_gear_def
  by (induction rule: list_all2_induct) auto

lemma adjacent_skeleton:
  assumes "list_all2 same_skeleton gs gs'"
  shows "adjacent gs' i = adjacent gs i"
  using lookup_gear_rel[OF assms, of i]
  by (auto simp: adjacent_def same_skeleton_def same_geometry_def elim!: option.rel_cases)

lemma jam_bfs_cong:
  assumes "\<And>i. adjacent gs' i = adjacent gs i"
  shows "jam_bfs gs' t q vis = jam_bfs gs t q vis"
  using assms
proof (induction gs t q vis rule: jam_bfs.induct)
  case (1 gs gear2 visited)
  then show ?case by simp
next
  case (2 gs gear2 g depth queue visited)
  show ?case
  proof (cases "jam_scan gear2 depth (adjacent gs g) queue visited")
    case (Inl b)
    then show ?thesis using "2.prems" by simp
  next
    case (Inr r)
    obtain q' vis' where r: "r = (q', vis')" by (cases r)
    from "2.IH"[OF Inr[unfolded r] refl "2.prems"] Inr r "2.prems" show ?thesis by simp
  qed
qed

lemma wouldCauseJamming_cong:
  assumes "\<And>i. adjacent gs' i = adjacent gs i"
  shows "wouldCauseJamming gs' a b = wouldCauseJamming gs a b"
  by (simp add: wouldCauseJamming_def assms jam_bfs_cong[OF assms] del: jam_bfs.simps)

lemma update_gear_rel:
  assumes "list_all2 R gs gs'"
    and "\<And>g g'. R g g' \<Longrightarrow> gid g' = gid g"
    and "\<And>g g'. R g g' \<Longrightarrow> R (f g) (f' g')"
  shows "list_all2 R (update_gear i f gs) (update_gear i f' gs')"
  using assms unfolding update_gear_def
  by (induction rule: list_all2_induct) auto

lemma connectGears_skeleton:
  assumes "list_all2 same_skeleton gs gs'"
  shows "list_all2 same_skeleton (connectGears a b gs) (connectGears a b gs')"
  unfolding connectGears_def push_connection_def
  by (intro update_gear_rel assms) (auto simp: same_skeleton_def same_geometry_def)

lemma same_but_connections_refl: "same_but_connections g g"
  by (simp add: same_but_connections_def same_geometry_def)

lemma same_but_connections_trans:
  "same_but_connections a b \<Longrightarrow> same_but_connections b c \<Longrightarrow> same_but_connections a c"
  by (simp add: same_but_connections_def same_geometry_def)

lemma push_connection_frame: "list_all2 same_but_connections gs (push_connection a b gs)"
  by (simp add: push_connection_def update_gear_def list_all2_map2 list_all2_refl
      same_but_connections_def same_geometry_def)

lemma connectGears_frame: "list_all2 same_but_connections gs (connectGears a b gs)"
  unfolding connectGears_def
  by (rule list_all2_trans[OF same_but_connections_trans push_connection_frame push_connection_frame])

lemma make_connections_frame:
  "list_all2 same_but_connections gs (fst (make_connections cs gs jamming))"
proof (induction cs gs jamming rule: make_connections.induct)
  case (1 gs jamming)
  then show ?case by (simp add: list_all2_refl same_but_connections_refl)
next
  case (2 gear1 gear2 distance rest gs jamming)
  show ?case
  proof (cases "checkGearsOverlap gear1 gear2 \<or> \<not> areGearsCompatible gear1 gear2
                \<or> wouldCauseJamming gs (gid gear1) (gid gear2)")
    case True
    with 2 show ?thesis by auto
  next
    case False
    with "2.IH"(4)
    have "list_all2 same_but_connections (connectGears (gid gear1) (gid gear2) gs)
            (fst (make_connections rest (connectGears (gid gear1) (gid gear2) gs) jamming))"
      by simp
    from list_all2_trans[OF same_but_connections_trans connectGears_frame this] False
    show ?thesis by simp
  qed
qed

lemma make_connections_skeleton:
  assumes "list_all2 same_candidate cs cs'" and "list_all2 same_skeleton gs gs'"
  shows "snd (make_connections cs' gs' jamming) = snd (make_connections cs gs jamming)
       \<and> list_all2 same_skeleton (fst (make_connections cs gs jamming))
            (fst (make_connections cs' gs' jamming))"
  using assms
proof (induction arbitrary: gs gs' jamming rule: list_all2_induct)
  case Nil
  then show ?case by simp
next
  case (Cons c cs c' cs')
  obtain a b d where c: "c = (a, b, d)" by (cases c)
  obtain a' b' d' where c': "c' = (a', b', d')" by (cases c')
  from Cons.hyps(1) c c' have geo: "same_geometry a a'" "same_geometry b b'"
    by (simp_all add: same_candidate_def)
  then have ids: "gid a' = gid a" "gid b' = gid b" by (simp_all add: same_geometry_def)
  have ov: "checkGearsOverlap a' b' = checkGearsOverlap a b"
    and co: "areGearsCompatible a' b' = areGearsCompatible a b"
    using geo by (simp_all add: checkGearsOverlap_geometry areGearsCompatible_geometry)
  have jam: "wouldCauseJamming gs' (gid a) (gid b) = wouldCauseJamming gs (gid a) (gid b)"
    by (rule wouldCauseJamming_cong) (rule adjacent_skeleton[OF Cons.prems])
  have conn: "list_all2 same_skeleton (connectGears (gid a) (gid b) gs)
                (connectGears (gid a) (gid b) gs')"
    by (rule connectGears_skeleton[OF Cons.prems])
  show ?case
    unfolding c c'
    using Cons.IH[OF Cons.prems] Cons.IH[OF conn] ov co jam ids
    by simp
qed

lemma all_pairs_rel:
  assumes "list_all2 R xs ys"
  shows "list_all2 (rel_prod R R) (all_pairs xs) (all_pairs ys)"
  using assms
proof (induction rule: list_all2_induct)
  case Nil
  then show ?case by simp
next
  case (Cons x xs y ys)
  have "list_all2 (rel_prod R R) (map (Pair x) xs) (map (Pair y) ys)"
    using Cons.hyps by (simp add: list_all2_map1 list_all2_map2)
  with Cons.IH show ?case by (simp add: list_all2_appendI)
qed

lemma filter_rel:
  assumes "list_all2 R xs ys" and "\<And>x y. R x y \<Longrightarrow> P x = Q y"
  shows "list_all2 R (filter P xs) (filter Q ys)"
  using assms by (induction rule: list_all2_induct) auto

lemma find_rel:
  assumes "list_all2 R xs ys" and "\<And>x y. R x y \<Longrightarrow> P x = Q y"
  shows "rel_option R (find P xs) (find Q ys)"
  using assms by (induction rule: list_all2_induct) auto

lemma insort_key_rel:
  assumes "list_all2 R xs ys" and "R x y" and "\<And>x y. R x y \<Longrightarrow> k x = k' y"
  shows "list_all2 R (insort_key k x xs) (insort_key k' y ys)"
  using assms
proof (induction rule: list_all2_induct)
  case Nil
  then show ?case by simp
next
  case (Cons a xs b ys)
  then have "k a = k' b" "k x = k' y" by simp_all
  with Cons show ?case by simp
qed

lemma sort_key_rel:
  assumes "list_all2 R xs ys" and "\<And>x y. R x y \<Longrightarrow> k x = k' y"
  shows "list_all2 R (sort_key k xs) (sort_key k' ys)"
  using assms
proof (induction rule: list_all2_induct)
  case Nil
  then show ?case by simp
next
  case (Cons a xs b ys)
  then show ?case by (simp add: insort_key_rel)
qed

lemma potentialConnections_geometry:
  assumes "list_all2 same_geometry gs gs'"
  shows "list_all2 same_candidate (potentialConnections gs) (potentialConnections gs')"
proof -
  let ?in_range = "\<lambda>(gear1, gear2). \<bar>currentDistance gear1 gear2 - idealDistance gear1 gear2\<bar> < 3"
  let ?mk = "\<lambda>(gear1, gear2). (gear1, gear2, currentDistance gear1 gear2)"
  have "list_all2 (rel_prod same_geometry same_geometry) (all_pairs gs) (all_pairs gs')"
    by (rule all_pairs_rel[OF assms])
  then have "list_all2 (rel_prod same_geometry same_geometry)
      (filter ?in_range (all_pairs gs)) (filter ?in_range (all_pairs gs'))"
    by (rule filter_rel) (auto simp: in_range_geometry)
  then have "list_all2 same_candidate
      (map ?mk (filter ?in_range (all_pairs gs))) (map ?mk (filter ?in_range (all_pairs gs')))"
    unfolding list_all2_map1 list_all2_map2
    by (rule list_all2_mono)
      (auto simp: same_candidate_def same_geometry_def currentDistance_def)
  then show ?thesis
    unfolding potentialConnections_def
    by (rule sort_key_rel) (auto simp: same_candidate_def)
qed

lemma first_overlap_geometry:
  assumes "list_all2 same_geometry gs gs'"
  shows "first_overlap gs' = first_overlap gs"
proof -
  have "list_all2 (rel_prod same_geometry same_geometry) (all_pairs gs) (all_pairs gs')"
    by (rule all_pairs_rel[OF assms])
  then have "rel_option (rel_prod same_geometry same_geometry)
      (find (\<lambda>(gear1, gear2). checkGearsOverlap gear1 gear2) (all_pairs gs))
      (find (\<lambda>(gear1, gear2). checkGearsOverlap gear1 gear2) (all_pairs gs'))"
    by (rule find_rel) (auto simp: checkGearsOverlap_geometry)
  then show ?thesis
    unfolding first_overlap_def
    by (auto elim!: option.rel_cases simp: same_geometry_def)
qed

lemma clear_position_errors_map: "clear_position_errors gs = map clear_position_error gs"
  by (simp add: clear_position_errors_def clear_position_error_def)

lemma clear_moved_away_map: "clear_moved_away gs = map (clear_if_moved_away gs) gs"
  unfolding clear_moved_away_def clear_if_moved_away_def Let_def by (rule refl)

lemma surface_error_map:
  "surface_error selected overlap jamming gs = map (surface_gear selected overlap jamming) gs"
proof (cases overlap)
  case (Some pair)
  then show ?thesis
    by (simp add: surface_error_def surface_gear_def setOverlapState_def update_gear_def
        split: prod.splits)
next
  case None
  show ?thesis
  proof (cases jamming)
    case (Some pair)
    with None show ?thesis
      by (simp add: surface_error_def surface_gear_def setJammingState_def update_gear_def
          split: prod.splits)
  next
    case no_jam: None
    have "map (surface_gear selected None None) gs = gs"
      by (rule map_idI) (simp add: surface_gear_def)
    with None no_jam show ?thesis by (simp add: surface_error_def)
  qed
qed

lemma updateConnections_gears:
  "gears (updateConnections s) =
     (let gs = clear_moved_away (clear_position_errors (gears s))
      in map (surface_gear (selectedGear s) (first_overlap (clear_connections gs))
                (snd (rebuild_graph gs)))
           (fst (rebuild_graph gs)))"
  by (simp add: updateConnections_def rebuild_graph_def Let_def surface_error_map
      split: prod.splits)

lemma updateConnections_other_fields:
  "updateConnections s = s\<lparr>gears := gears (updateConnections s)\<rparr>"
  by (simp add: updateConnections_def Let_def split: prod.splits)

lemma rebuild_graph_geometry:
  assumes "list_all2 same_geometry gs gs'"
  shows "snd (rebuild_graph gs') = snd (rebuild_graph gs)"
    and "list_all2 same_skeleton (fst (rebuild_graph gs)) (fst (rebuild_graph gs'))"
    and "first_overlap (clear_connections gs') = first_overlap (clear_connections gs)"
proof -
  have geo: "list_all2 same_geometry (clear_connections gs) (clear_connections gs')"
    unfolding clear_connections_def list_all2_map1 list_all2_map2
    by (rule list_all2_mono[OF assms]) (simp add: same_geometry_def)
  have skel: "list_all2 same_skeleton (clear_connections gs) (clear_connections gs')"
    unfolding clear_connections_def list_all2_map1 list_all2_map2
    by (rule list_all2_mono[OF assms]) (simp add: same_skeleton_def same_geometry_def)
  from make_connections_skeleton[OF potentialConnections_geometry[OF geo] skel]
  show "snd (rebuild_graph gs') = snd (rebuild_graph gs)"
    and "list_all2 same_skeleton (fst (rebuild_graph gs)) (fst (rebuild_graph gs'))"
    by (simp_all add: rebuild_graph_def)
  show "first_overlap (clear_connections gs') = first_overlap (clear_connections gs)"
    by (rule first_overlap_geometry[OF geo])
qed

lemma rebuild_graph_same_but_connections:
  "list_all2 same_but_connections gs (fst (rebuild_graph gs))"
proof -
  have "list_all2 same_but_connections (clear_connections gs) (fst (rebuild_graph gs))"
    unfolding rebuild_graph_def by (rule make_connections_frame)
  then show ?thesis
    unfolding clear_connections_def list_all2_map1
    by (rule list_all2_mono) (simp add: same_but_connections_def same_geometry_def)
qed

lemma rebuild_graph_frame:
  "list_all2 (\<lambda>g g'. g' = g\<lparr>connectedTo := connectedTo g'\<rparr>) gs (fst (rebuild_graph gs))"
  by (rule list_all2_mono[OF rebuild_graph_same_but_connections])
    (auto simp: same_but_connections_def same_geometry_def intro!: gear.equality)

lemma same_geometry_refl: "same_geometry g g"
  by (simp add: same_geometry_def)

lemma same_geometry_sym: "same_geometry g g' \<Longrightarrow> same_geometry g' g"
  by (simp add: same_geometry_def)

lemma same_geometry_trans: "same_geometry a b \<Longrightarrow> same_geometry b c \<Longrightarrow> same_geometry a c"
  by (simp add: same_geometry_def)

lemma list_same_geometry_sym:
  "list_all2 same_geometry gs gs' \<Longrightarrow> list_all2 same_geometry gs' gs"
  by (simp add: list_all2_conv_all_nth same_geometry_def)

lemma list_same_geometry_trans:
  "list_all2 same_geometry a b \<Longrightarrow> list_all2 same_geometry b c \<Longrightarrow> list_all2 same_geometry a c"
  by (rule list_all2_trans[OF same_geometry_trans])

lemma clear_position_error_geometry: "same_geometry g (clear_position_error g)"
  by (simp add: same_geometry_def clear_position_error_def clearIncompatibleState_def)

lemma clear_if_moved_away_geometry: "same_geometry g (clear_if_moved_away gs g)"
  by (simp add: same_geometry_def clear_if_moved_away_def clearIncompatibleState_def
      split: option.splits)

lemma surface_gear_geometry: "same_geometry g (surface_gear selected overlap jamming g)"
  by (simp add: same_geometry_def surface_gear_def split: option.splits)

lemma clears_geometry:
  "list_all2 same_geometry gs (clear_moved_away (clear_position_errors gs))"
  unfolding clear_moved_away_map clear_position_errors_map list_all2_map2
  by (rule list_all2_refl)
    (rule same_geometry_trans[OF clear_position_error_geometry clear_if_moved_away_geometry])

lemma rebuild_graph_same_geometry:
  "list_all2 same_geometry gs (fst (rebuild_graph gs))"
  by (rule list_all2_mono[OF rebuild_graph_same_but_connections])
    (simp add: same_but_connections_def)

lemma updateConnections_geometry:
  "list_all2 same_geometry (gears s) (gears (updateConnections s))"
proof -
  let ?B = "clear_moved_away (clear_position_errors (gears s))"
  have "list_all2 same_geometry (gears s) (fst (rebuild_graph ?B))"
    by (rule list_same_geometry_trans[OF clears_geometry rebuild_graph_same_geometry])
  then show ?thesis
    unfolding updateConnections_gears Let_def list_all2_map2
    by (rule list_all2_mono) (rule same_geometry_trans[OF _ surface_gear_geometry])
qed

lemma clear_position_error_flags:
  assumes "jammingError g \<or> overlapError g \<longrightarrow> incompatibleWith g \<noteq> None"
  shows "\<not> jammingError (clear_position_error g)" "\<not> overlapError (clear_position_error g)"
  using assms by (auto simp: clear_position_error_def clearIncompatibleState_def)

lemma clear_position_error_fix:
  "\<not> jammingError g \<Longrightarrow> \<not> overlapError g \<Longrightarrow> clear_position_error g = g"
  by (simp add: clear_position_error_def)

lemma clear_if_moved_away_flags:
  assumes "\<not> jammingError g" "\<not> overlapError g"
  shows "\<not> jammingError (clear_if_moved_away gs g)" "\<not> overlapError (clear_if_moved_away gs g)"
    "settled gs (clear_if_moved_away gs g)"
  using assms
  by (auto simp: clear_if_moved_away_def clearIncompatibleState_def settled_def
      split: option.splits)

lemma clear_if_moved_away_fix: "settled gs g \<Longrightarrow> clear_if_moved_away gs g = g"
  by (auto simp: clear_if_moved_away_def settled_def split: option.splits)

lemma settled_geometry:
  assumes "list_all2 same_geometry gs gs'" and "same_geometry g g'"
    and "incompatibleWith g' = incompatibleWith g"
  shows "settled gs' g' = settled gs g"
proof (cases "incompatibleWith g")
  case None
  with assms(3) show ?thesis by (simp add: settled_def)
next
  case (Some t)
  have "rel_option same_geometry (lookup_gear gs t) (lookup_gear gs' t)"
    by (rule lookup_gear_rel[OF assms(1)]) (simp add: same_geometry_def)
  then show ?thesis
    using Some assms(2,3)
    by (auto simp: settled_def in_range_geometry elim!: option.rel_cases)
qed

lemma surface_gear_untouched:
  "\<not> touched selected overlap jamming g \<Longrightarrow> surface_gear selected overlap jamming g = g"
  by (auto simp: touched_def surface_gear_def split: option.splits)

lemma settled_connectedTo: "settled gs (g\<lparr>connectedTo := c\<rparr>) = settled gs g"
  by (simp add: settled_def currentDistance_def idealDistance_def split: option.splits)

lemma rebuild_gear_idem:
  assumes flags: "\<not> jammingError b" "\<not> overlapError b"
    and st: "\<not> touched selected overlap jamming b \<longrightarrow> settled gs b"
  shows "surface_gear selected overlap jamming
           ((clear_if_moved_away gs
               (clear_position_error
                  (surface_gear selected overlap jamming (b\<lparr>connectedTo := c\<rparr>))))
            \<lparr>connectedTo := c\<rparr>)
         = surface_gear selected overlap jamming (b\<lparr>connectedTo := c\<rparr>)"
proof (cases "touched selected overlap jamming b")
  case True
  define cleared where "cleared = b\<lparr>connectedTo := c, incompatibleWith := None\<rparr>"
  have b_flags: "b\<lparr>jammingError := False\<rparr> = b" "b\<lparr>overlapError := False\<rparr> = b"
    using flags by simp_all
  have cleared_id: "gid cleared = gid b" by (simp add: cleared_def)
  have second_run: "(clear_if_moved_away gs (clear_position_error g))\<lparr>connectedTo := c\<rparr> = cleared"
    if "g = b\<lparr>connectedTo := c, incompatibleWith := Some x, overlapError := True\<rparr>
        \<or> g = b\<lparr>connectedTo := c, incompatibleWith := Some x, jammingError := True\<rparr>"
    for g x
  proof -
    from that have "clear_position_error g
        = b\<lparr>connectedTo := c, incompatibleWith := None, jammingError := False,
             overlapError := False\<rparr>"
      by (auto simp: clear_position_error_def clearIncompatibleState_def)
    also have "\<dots> = cleared"
      unfolding cleared_def using flags by (intro gear.equality) simp_all
    finally have "clear_position_error g = cleared" .
    moreover have "clear_if_moved_away gs cleared = cleared"
      by (simp add: clear_if_moved_away_def cleared_def)
    moreover have "cleared\<lparr>connectedTo := c\<rparr> = cleared" by (simp add: cleared_def)
    ultimately show ?thesis by simp
  qed
  show ?thesis
  proof (cases overlap)
    case (Some pair)
    with True have e: "gid b = fst (error_gear selected pair)" by (simp add: touched_def)
    have f: "surface_gear selected overlap jamming (b\<lparr>connectedTo := c\<rparr>)
               = b\<lparr>connectedTo := c, incompatibleWith := Some (snd (error_gear selected pair)),
                    overlapError := True\<rparr>"
      using Some e by (simp add: surface_gear_def)
    have "surface_gear selected overlap jamming cleared
            = b\<lparr>connectedTo := c, incompatibleWith := Some (snd (error_gear selected pair)),
                 overlapError := True\<rparr>"
      using Some e by (simp add: surface_gear_def cleared_def)
    with f second_run[of _ "snd (error_gear selected pair)"] show ?thesis by simp
  next
    case None
    with True obtain pair where jam: "jamming = Some pair"
      and e: "gid b = fst (error_gear selected pair)"
      by (cases jamming) (auto simp: touched_def)
    have f: "surface_gear selected overlap jamming (b\<lparr>connectedTo := c\<rparr>)
               = b\<lparr>connectedTo := c, incompatibleWith := Some (snd (error_gear selected pair)),
                    jammingError := True\<rparr>"
      using None jam e by (simp add: surface_gear_def)
    have "surface_gear selected overlap jamming cleared
            = b\<lparr>connectedTo := c, incompatibleWith := Some (snd (error_gear selected pair)),
                 jammingError := True\<rparr>"
      using None jam e by (simp add: surface_gear_def cleared_def)
    with f second_run[of _ "snd (error_gear selected pair)"] show ?thesis by simp
  qed
next
  case False
  let ?f = "b\<lparr>connectedTo := c\<rparr>"
  from False have un: "\<not> touched selected overlap jamming ?f"
    by (auto simp: touched_def split: option.splits)
  have f: "surface_gear selected overlap jamming ?f = ?f"
    by (rule surface_gear_untouched[OF un])
  have cp: "clear_position_error ?f = ?f"
    using flags by (simp add: clear_position_error_fix)
  have cm: "clear_if_moved_away gs ?f = ?f"
    using st False by (intro clear_if_moved_away_fix) (simp add: settled_connectedTo)
  show ?thesis by (simp add: f cp cm)
qed

lemma clear_position_errors_geometry:
  "list_all2 same_geometry gs (clear_position_errors gs)"
  unfolding clear_position_errors_map list_all2_map2
  by (rule list_all2_refl) (rule clear_position_error_geometry)

lemma updateConnections_selectedGear: "selectedGear (updateConnections s) = selectedGear s"
  by (simp add: updateConnections_def Let_def split: prod.splits)

lemma push_connection_edges:
  assumes "edges_in L gs" and "(a, b) \<in> L \<or> (b, a) \<in> L"
  shows "edges_in L (push_connection a b gs)"
  unfolding edges_in_def
proof (intro ballI)
  fix g c
  assume g: "g \<in> set (push_connection a b gs)" and c: "c \<in> set (connectedTo g)"
  from g obtain g0 where g0: "g0 \<in> set gs" "gid g = gid g0"
    and conn: "connectedTo g = connectedTo g0 \<or> gid g0 = a \<and> connectedTo g = connectedTo g0 @ [b]"
    by (auto simp: push_connection_def update_gear_def split: if_splits)
  from conn c have "c \<in> set (connectedTo g0) \<or> gid g0 = a \<and> c = b" by auto
  then show "(gid g, c) \<in> L \<or> (c, gid g) \<in> L"
    using assms g0 by (auto simp: edges_in_def)
qed

lemma connectGears_edges:
  assumes "edges_in L gs" and "(a, b) \<in> L"
  shows "edges_in L (connectGears a b gs)"
  unfolding connectGears_def using assms
  by (intro push_connection_edges) auto

lemma make_connections_edges:
  assumes "edges_in L gs"
    and "\<forall>(a, b, d)\<in>set cs. \<not> checkGearsOverlap a b \<and> areGearsCompatible a b
           \<longrightarrow> (gid a, gid b) \<in> L"
  shows "edges_in L (fst (make_connections cs gs jamming))"
  using assms
proof (induction cs gs jamming rule: make_connections.induct)
  case (1 gs jamming)
  then show ?case by simp
next
  case (2 gear1 gear2 distance rest gs jamming)
  from "2.prems"(2)
  have rest: "\<forall>(a, b, d)\<in>set rest. \<not> checkGearsOverlap a b \<and> areGearsCompatible a b
           \<longrightarrow> (gid a, gid b) \<in> L"
    by simp
  show ?case
  proof (cases "checkGearsOverlap gear1 gear2 \<or> \<not> areGearsCompatible gear1 gear2
                \<or> wouldCauseJamming gs (gid gear1) (gid gear2)")
    case True
    with "2.IH"(1,2,3) "2.prems"(1) rest show ?thesis by auto
  next
    case False
    with "2.prems"(2) have "(gid gear1, gid gear2) \<in> L" by simp
    with "2.prems"(1) have "edges_in L (connectGears (gid gear1) (gid gear2) gs)"
      by (rule connectGears_edges)
    with "2.IH"(4) False rest show ?thesis by simp
  qed
qed

lemma all_pairs_subset: "(a, b) \<in> set (all_pairs xs) \<Longrightarrow> a \<in> set xs \<and> b \<in> set xs"
  by (induction xs) auto

lemma potentialConnections_member:
  assumes "(a, b, d) \<in> set (potentialConnections gs)"
  shows "a \<in> set gs" "b \<in> set gs" "\<bar>currentDistance a b - idealDistance a b\<bar> < 3"
  using assms all_pairs_subset[of a b gs]
  by (auto simp: potentialConnections_def)

lemma meshing_sym: "meshing g h = meshing h g"
  by (simp add: meshing_def checkGearsOverlap_sym[of g h] areGearsCompatible_sym[of g h]
      currentDistance_def idealDistance_def distanceTo_sym[of "position g"] add.commute)

lemma meshing_geometry:
  "same_geometry a a' \<Longrightarrow> same_geometry b b' \<Longrightarrow> meshing a' b' = meshing a b"
  by (simp add: meshing_def checkGearsOverlap_geometry areGearsCompatible_geometry
      in_range_geometry)

lemma same_geometry_by_id:
  assumes rel: "list_all2 same_geometry xs ys" and dist: "distinct (map gid xs)"
    and a: "a \<in> set xs" and g: "g \<in> set ys" and eq: "gid a = gid g"
  shows "same_geometry a g"
proof -
  from a obtain i where i: "i < length xs" "xs ! i = a" by (auto simp: in_set_conv_nth)
  from g obtain k where k: "k < length ys" "ys ! k = g" by (auto simp: in_set_conv_nth)
  have len: "length xs = length ys" by (rule list_all2_lengthD[OF rel])
  from list_all2_nthD2[OF rel k(1)] have gk: "same_geometry (xs ! k) g" by (simp add: k)
  then have "gid (xs ! k) = gid (xs ! i)" using eq i by (simp add: same_geometry_def)
  then have same: "gid (xs ! k) = gid (xs ! i)" .
  have kx: "k < length xs" using k len by simp
  have "(map gid xs ! k = map gid xs ! i) = (k = i)"
  proof (rule nth_eq_iff_index_eq[OF dist])
    show "k < length (map gid xs)" using kx by simp
    show "i < length (map gid xs)" using i(1) by simp
  qed
  with same have "k = i" using i(1) kx by simp
  with gk i show ?thesis by simp
qed

lemma rebuild_edges_meshing:
  assumes dist: "distinct (map gid (gears s))"
    and g: "g \<in> set (gears (updateConnections s))"
    and h: "h \<in> set (gears (updateConnections s))"
    and edge: "gid h \<in> set (connectedTo g)"
  shows "meshing g h"
proof -
  let ?B = "clear_moved_away (clear_position_errors (gears s))"
  let ?G3 = "clear_connections ?B"
  let ?G4 = "fst (rebuild_graph ?B)"
  let ?F = "gears (updateConnections s)"
  define L where "L = {(gid a, gid b) | a b. a \<in> set ?G3 \<and> b \<in> set ?G3 \<and> meshing a b}"
  have "edges_in L ?G3" by (simp add: edges_in_def clear_connections_def)
  moreover have "\<forall>(a, b, d)\<in>set (potentialConnections ?G3).
      \<not> checkGearsOverlap a b \<and> areGearsCompatible a b \<longrightarrow> (gid a, gid b) \<in> L"
    using potentialConnections_member by (fastforce simp: L_def meshing_def)
  ultimately have G4: "edges_in L ?G4"
    unfolding rebuild_graph_def by (rule make_connections_edges)
  have geoG3: "list_all2 same_geometry (gears s) ?G3"
    unfolding clear_connections_def list_all2_map2
    by (rule list_all2_mono[OF clears_geometry]) (simp add: same_geometry_def)
  then have distG3: "distinct (map gid ?G3)"
    using dist
    by (simp add: list_all2_conv_all_nth distinct_conv_nth same_geometry_def)
  have geoG3F: "list_all2 same_geometry ?G3 ?F"
    by (rule list_same_geometry_trans[OF list_same_geometry_sym[OF geoG3]
          updateConnections_geometry])
  from g obtain g4 where g4: "g4 \<in> set ?G4" and gg4: "gid g = gid g4"
    "connectedTo g = connectedTo g4"
    by (auto simp: updateConnections_gears Let_def surface_gear_def split: option.splits if_splits)
  from G4 g4 gg4 edge have "(gid g, gid h) \<in> L \<or> (gid h, gid g) \<in> L"
    by (auto simp: edges_in_def)
  then obtain a b where ab: "a \<in> set ?G3" "b \<in> set ?G3" "meshing a b"
    and ids: "gid a = gid g \<and> gid b = gid h \<or> gid a = gid h \<and> gid b = gid g"
    by (auto simp: L_def)
  from ids show ?thesis
  proof
    assume "gid a = gid g \<and> gid b = gid h"
    then have "same_geometry a g" "same_geometry b h"
      using same_geometry_by_id[OF geoG3F distG3] ab g h by simp_all
    with ab(3) show ?thesis by (simp add: meshing_geometry)
  next
    assume "gid a = gid h \<and> gid b = gid g"
    then have "same_geometry a h" "same_geometry b g"
      using same_geometry_by_id[OF geoG3F distG3] ab g h by simp_all
    with ab(3) have "meshing h g" by (simp add: meshing_geometry)
    then show ?thesis by (simp add: meshing_sym)
  qed
qed

lemma updateConnections_nth:
  assumes "k < length (gears s)"
  shows "\<exists>c. gears (updateConnections s) ! k =
           surface_gear (selectedGear s)
             (first_overlap (clear_connections (clear_moved_away (clear_position_errors (gears s)))))
             (snd (rebuild_graph (clear_moved_away (clear_position_errors (gears s)))))
             ((clear_if_moved_away (clear_position_errors (gears s))
                 (clear_position_error (gears s ! k)))\<lparr>connectedTo := c\<rparr>)"
proof -
  let ?A = "clear_position_errors (gears s)"
  let ?B = "clear_moved_away ?A"
  have len: "length ?B = length (gears s)" "length ?A = length (gears s)"
    "length (fst (rebuild_graph ?B)) = length (gears s)"
    using list_all2_lengthD[OF rebuild_graph_frame[of ?B]]
    by (simp_all add: clear_moved_away_map clear_position_errors_map)
  define c where "c = connectedTo (fst (rebuild_graph ?B) ! k)"
  have "fst (rebuild_graph ?B) ! k = (?B ! k)\<lparr>connectedTo := c\<rparr>"
    using list_all2_nthD[OF rebuild_graph_frame[of ?B], of k] assms by (simp add: len c_def)
  moreover have "?B ! k = clear_if_moved_away ?A (clear_position_error (gears s ! k))"
    using assms by (simp add: clear_moved_away_map clear_position_errors_map)
  ultimately have "gears (updateConnections s) ! k =
           surface_gear (selectedGear s) (first_overlap (clear_connections ?B))
             (snd (rebuild_graph ?B))
             ((clear_if_moved_away ?A (clear_position_error (gears s ! k)))\<lparr>connectedTo := c\<rparr>)"
    using assms by (simp add: updateConnections_gears Let_def len)
  then show ?thesis by (rule exI)
qed

lemma length_updateConnections: "length (gears (updateConnections s)) = length (gears s)"
  using list_all2_lengthD[OF updateConnections_geometry[of s]] by simp

lemma rebuild_keeps_or_clears_incompatibility:
  "list_all2
     (\<lambda>g g'. incompatibleWith g' \<noteq> None \<and> \<not> jammingError g' \<and> \<not> overlapError g' \<longrightarrow>
               incompatibleWith g' = incompatibleWith g \<and> \<not> jammingError g \<and> \<not> overlapError g)
     (gears s) (gears (updateConnections s))"
proof (rule list_all2_all_nthI)
  show "length (gears s) = length (gears (updateConnections s))"
    by (simp add: length_updateConnections)
next
  fix k assume k: "k < length (gears s)"
  from updateConnections_nth[OF k] obtain c ov jam A where
    F: "gears (updateConnections s) ! k =
          surface_gear (selectedGear s) ov jam
            ((clear_if_moved_away A (clear_position_error (gears s ! k)))\<lparr>connectedTo := c\<rparr>)"
    by blast
  let ?g = "gears s ! k"
  let ?a = "clear_position_error ?g"
  let ?b = "clear_if_moved_away A ?a"
  let ?g' = "gears (updateConnections s) ! k"
  show "incompatibleWith ?g' \<noteq> None \<and> \<not> jammingError ?g' \<and> \<not> overlapError ?g' \<longrightarrow>
        incompatibleWith ?g' = incompatibleWith ?g \<and> \<not> jammingError ?g \<and> \<not> overlapError ?g"
  proof
    assume pure: "incompatibleWith ?g' \<noteq> None \<and> \<not> jammingError ?g' \<and> \<not> overlapError ?g'"
    have "?g' = ?b\<lparr>connectedTo := c\<rparr>"
    proof (rule ccontr)
      assume "?g' \<noteq> ?b\<lparr>connectedTo := c\<rparr>"
      with F have "jammingError ?g' \<or> overlapError ?g'"
        by (auto simp: surface_gear_def split: option.splits if_splits)
      with pure show False by simp
    qed
    with pure have b: "incompatibleWith ?b \<noteq> None" "\<not> jammingError ?b" "\<not> overlapError ?b"
      "incompatibleWith ?g' = incompatibleWith ?b"
      by simp_all
    from b(1) have "?b = ?a"
      by (auto simp: clear_if_moved_away_def clearIncompatibleState_def
          split: option.splits if_splits)
    with b have a: "incompatibleWith ?a \<noteq> None" "\<not> jammingError ?a" "\<not> overlapError ?a"
      "incompatibleWith ?g' = incompatibleWith ?a"
      by simp_all
    from a(1) have "?a = ?g"
      by (auto simp: clear_position_error_def clearIncompatibleState_def split: if_splits)
    with a show "incompatibleWith ?g' = incompatibleWith ?g \<and> \<not> jammingError ?g
        \<and> \<not> overlapError ?g"
      by simp
  qed
qed

lemma surface_gear_flags:
  assumes "\<not> jammingError b" "\<not> overlapError b"
  shows "overlapError (surface_gear selected overlap jamming b) \<longleftrightarrow>
           (\<exists>pair. overlap = Some pair \<and> gid b = fst (error_gear selected pair))"
    and "jammingError (surface_gear selected overlap jamming b) \<longleftrightarrow>
           overlap = None \<and> (\<exists>pair. jamming = Some pair \<and> gid b = fst (error_gear selected pair))"
    and "jammingError (surface_gear selected overlap jamming b)
           \<or> overlapError (surface_gear selected overlap jamming b)
         \<longrightarrow> incompatibleWith (surface_gear selected overlap jamming b) \<noteq> None"
    and "gid (surface_gear selected overlap jamming b) = gid b"
  using assms
  by (cases overlap; cases jamming; simp add: surface_gear_def)+

lemma rebuild_flags:
  assumes wf: "flags_wf (gears s)" and g': "g' \<in> set (gears (updateConnections s))"
  shows "overlapError g' \<longleftrightarrow>
           (\<exists>pair. first_overlap (clear_connections (clear_moved_away
                       (clear_position_errors (gears s)))) = Some pair
                 \<and> gid g' = fst (error_gear (selectedGear s) pair))"
    and "jammingError g' \<longleftrightarrow>
           first_overlap (clear_connections (clear_moved_away
              (clear_position_errors (gears s)))) = None
           \<and> (\<exists>pair. snd (rebuild_graph (clear_moved_away (clear_position_errors (gears s))))
                        = Some pair
                    \<and> gid g' = fst (error_gear (selectedGear s) pair))"
    and "jammingError g' \<or> overlapError g' \<longrightarrow> incompatibleWith g' \<noteq> None"
proof -
  from g' obtain k where "k < length (gears (updateConnections s))"
    and gk: "g' = gears (updateConnections s) ! k"
    unfolding in_set_conv_nth by blast
  then have k: "k < length (gears s)" by (simp add: length_updateConnections)
  let ?g = "gears s ! k"
  let ?a = "clear_position_error ?g"
  let ?b = "clear_if_moved_away (clear_position_errors (gears s)) ?a"
  let ?ov = "first_overlap (clear_connections (clear_moved_away (clear_position_errors (gears s))))"
  let ?jam = "snd (rebuild_graph (clear_moved_away (clear_position_errors (gears s))))"
  from updateConnections_nth[OF k] obtain c where
    F: "g' = surface_gear (selectedGear s) ?ov ?jam (?b\<lparr>connectedTo := c\<rparr>)"
    unfolding gk by blast
  have "?g \<in> set (gears s)" using k by simp
  with wf have "jammingError ?g \<or> overlapError ?g \<longrightarrow> incompatibleWith ?g \<noteq> None"
    by (simp add: flags_wf_def)
  then have "\<not> jammingError ?a" "\<not> overlapError ?a"
    by (rule clear_position_error_flags)+
  then have "\<not> jammingError ?b" "\<not> overlapError ?b"
    by (rule clear_if_moved_away_flags)+
  then have flags: "\<not> jammingError (?b\<lparr>connectedTo := c\<rparr>)"
    "\<not> overlapError (?b\<lparr>connectedTo := c\<rparr>)"
    by simp_all
  note sg = surface_gear_flags[OF flags, of "selectedGear s" ?ov ?jam]
  have id: "gid g' = gid (?b\<lparr>connectedTo := c\<rparr>)" unfolding F by (rule sg(4))
  show "overlapError g' \<longleftrightarrow>
           (\<exists>pair. ?ov = Some pair \<and> gid g' = fst (error_gear (selectedGear s) pair))"
    unfolding id unfolding F by (rule sg(1))
  show "jammingError g' \<longleftrightarrow>
           ?ov = None \<and> (\<exists>pair. ?jam = Some pair \<and> gid g' = fst (error_gear (selectedGear s) pair))"
    unfolding id unfolding F by (rule sg(2))
  show "jammingError g' \<or> overlapError g' \<longrightarrow> incompatibleWith g' \<noteq> None"
    unfolding F by (rule sg(3))
qed

lemma updateConnections_flags_wf:
  assumes "flags_wf (gears s)"
  shows "flags_wf (gears (updateConnections s))"
  unfolding flags_wf_def
proof
  fix g' assume "g' \<in> set (gears (updateConnections s))"
  with assms show "jammingError g' \<or> overlapError g' \<longrightarrow> incompatibleWith g' \<noteq> None"
    by (rule rebuild_flags(3))
qed

lemma all_pairs_complete:
  assumes "a \<in> set xs" and "b \<in> set xs" and "a \<noteq> b"
  shows "(a, b) \<in> set (all_pairs xs) \<or> (b, a) \<in> set (all_pairs xs)"
  using assms by (induction xs) auto

lemma distinct_filter_le1:
  "distinct (map f xs) \<Longrightarrow> length (filter (\<lambda>x. f x = e) xs) \<le> 1"
proof (induction xs)
  case Nil
  then show ?case by simp
next
  case (Cons a xs)
  show ?case
  proof (cases "f a = e")
    case True
    from Cons.prems have "f a \<notin> f ` set xs" by simp
    with True have "\<forall>x\<in>set xs. f x \<noteq> e" by (metis imageI)
    then have "filter (\<lambda>x. f x = e) xs = []" by (simp add: filter_empty_conv)
    with True show ?thesis by simp
  next
    case False
    with Cons show ?thesis by simp
  qed
qed

lemma filter_nonempty: "x \<in> set xs \<Longrightarrow> P x \<Longrightarrow> 1 \<le> length (filter P xs)"
  by (induction xs) auto

lemma first_overlap_Some:
  assumes "first_overlap gs = Some (i, j)"
  shows "\<exists>a\<in>set gs. \<exists>b\<in>set gs. gid a = i \<and> gid b = j"
proof -
  from assms obtain p where
    found: "find (\<lambda>(gear1, gear2). checkGearsOverlap gear1 gear2) (all_pairs gs) = Some p"
    and p: "(case p of (gear1, gear2) \<Rightarrow> (gid gear1, gid gear2)) = (i, j)"
    unfolding first_overlap_def by (cases "find (\<lambda>(gear1, gear2). checkGearsOverlap gear1 gear2) (all_pairs gs)") simp_all
  obtain a b where ab: "p = (a, b)" by (cases p)
  from find_Some_mem[OF found] have "p \<in> set (all_pairs gs)" by (rule conjunct1)
  with ab have "(a, b) \<in> set (all_pairs gs)" by simp
  from all_pairs_subset[OF this] have "a \<in> set gs" "b \<in> set gs" by blast+
  moreover from p ab have "gid a = i" "gid b = j" by simp_all
  ultimately show ?thesis by blast
qed

lemma first_overlap_None:
  assumes "first_overlap gs = None" and "a \<in> set gs" and "b \<in> set gs" and "a \<noteq> b"
  shows "\<not> checkGearsOverlap a b"
proof -
  from assms(1)
  have "find (\<lambda>(gear1, gear2). checkGearsOverlap gear1 gear2) (all_pairs gs) = None"
    by (simp add: first_overlap_def)
  then have none: "\<forall>p\<in>set (all_pairs gs). \<not> (case p of (x, y) \<Rightarrow> checkGearsOverlap x y)"
    by (simp only: find_None_iff_no_member)
  from all_pairs_complete[OF assms(2,3,4)] show ?thesis
  proof
    assume "(a, b) \<in> set (all_pairs gs)"
    with none show ?thesis by auto
  next
    assume "(b, a) \<in> set (all_pairs gs)"
    with none have "\<not> checkGearsOverlap b a" by auto
    then show ?thesis by (simp add: checkGearsOverlap_sym[of a b])
  qed
qed

lemma error_gear_fst: "fst (error_gear selected (i, j)) = i \<or> fst (error_gear selected (i, j)) = j"
  by (simp add: error_gear_def)

lemma same_geometry_ids:
  "list_all2 same_geometry xs ys \<Longrightarrow> map gid ys = map gid xs"
  by (induction rule: list_all2_induct) (simp_all add: same_geometry_def)

lemma rebuild_overlap_count:
  assumes wf: "flags_wf (gears s)" and dist: "distinct (map gid (gears s))"
  shows "length (filter overlapError (gears (updateConnections s))) \<le> 1"
    and "(\<exists>g\<in>set (gears s). \<exists>h\<in>set (gears s). gid g \<noteq> gid h \<and> checkGearsOverlap g h) \<longrightarrow>
           length (filter overlapError (gears (updateConnections s))) = 1
         \<and> (\<forall>g\<in>set (gears (updateConnections s)). \<not> jammingError g)"
proof -
  let ?F = "gears (updateConnections s)"
  let ?G3 = "clear_connections (clear_moved_away (clear_position_errors (gears s)))"
  let ?ov = "first_overlap ?G3"
  have idsF: "map gid ?F = map gid (gears s)"
    by (rule same_geometry_ids[OF updateConnections_geometry])
  have geoG3: "list_all2 same_geometry (gears s) ?G3"
    unfolding clear_connections_def list_all2_map2
    by (rule list_all2_mono[OF clears_geometry]) (simp add: same_geometry_def)
  have idsG3: "map gid ?G3 = map gid (gears s)"
    by (rule same_geometry_ids[OF geoG3])
  have distF: "distinct (map gid ?F)" using dist idsF by simp
  show le: "length (filter overlapError ?F) \<le> 1"
  proof (cases ?ov)
    case None
    have "\<forall>g\<in>set ?F. \<not> overlapError g"
    proof
      fix g assume "g \<in> set ?F"
      from rebuild_flags(1)[OF wf this] None show "\<not> overlapError g" by simp
    qed
    then have "filter overlapError ?F = []" by (simp add: filter_empty_conv)
    then show ?thesis by simp
  next
    case (Some pair)
    have "filter overlapError ?F
        = filter (\<lambda>g. gid g = fst (error_gear (selectedGear s) pair)) ?F"
    proof (rule filter_cong[OF refl])
      fix g assume "g \<in> set ?F"
      from rebuild_flags(1)[OF wf this] Some
      show "overlapError g = (gid g = fst (error_gear (selectedGear s) pair))" by simp
    qed
    then show ?thesis using distinct_filter_le1[OF distF] by simp
  qed
  show "(\<exists>g\<in>set (gears s). \<exists>h\<in>set (gears s). gid g \<noteq> gid h \<and> checkGearsOverlap g h) \<longrightarrow>
           length (filter overlapError ?F) = 1 \<and> (\<forall>g\<in>set ?F. \<not> jammingError g)"
  proof
    assume "\<exists>g\<in>set (gears s). \<exists>h\<in>set (gears s). gid g \<noteq> gid h \<and> checkGearsOverlap g h"
    then obtain g h where gh: "g \<in> set (gears s)" "h \<in> set (gears s)" "gid g \<noteq> gid h"
      "checkGearsOverlap g h"
      by blast
    from gh(1) obtain i where i: "i < length (gears s)" "gears s ! i = g"
      by (auto simp: in_set_conv_nth)
    from gh(2) obtain j where j: "j < length (gears s)" "gears s ! j = h"
      by (auto simp: in_set_conv_nth)
    have len: "length ?G3 = length (gears s)" using list_all2_lengthD[OF geoG3] by simp
    have gi: "same_geometry g (?G3 ! i)" and hj: "same_geometry h (?G3 ! j)"
      using list_all2_nthD[OF geoG3 i(1)] list_all2_nthD[OF geoG3 j(1)] i j by simp_all
    have mem: "?G3 ! i \<in> set ?G3" "?G3 ! j \<in> set ?G3" using i j len by simp_all
    have ne: "?G3 ! i \<noteq> ?G3 ! j" using gi hj gh(3) by (auto simp: same_geometry_def)
    have "checkGearsOverlap (?G3 ! i) (?G3 ! j)"
      using gh(4) checkGearsOverlap_geometry[OF gi hj] by simp
    then have "?ov \<noteq> None" using first_overlap_None[OF _ mem ne] by blast
    then obtain a b where ov: "?ov = Some (a, b)" by (cases ?ov) auto
    let ?e = "fst (error_gear (selectedGear s) (a, b))"
    from first_overlap_Some[OF ov] error_gear_fst[of "selectedGear s" a b]
    have "?e \<in> set (map gid ?G3)" by auto
    then have "?e \<in> set (map gid ?F)" by (simp add: idsG3 idsF)
    then obtain g' where g': "g' \<in> set ?F" "gid g' = ?e" by auto
    have "overlapError g'" using rebuild_flags(1)[OF wf g'(1)] ov g'(2) by simp
    with g'(1) have "1 \<le> length (filter overlapError ?F)" by (rule filter_nonempty)
    with le have "length (filter overlapError ?F) = 1" by simp
    moreover have "\<forall>g\<in>set ?F. \<not> jammingError g"
    proof
      fix g assume "g \<in> set ?F"
      from rebuild_flags(2)[OF wf this] ov show "\<not> jammingError g" by simp
    qed
    ultimately show "length (filter overlapError ?F) = 1 \<and> (\<forall>g\<in>set ?F. \<not> jammingError g)"
      by simp
  qed
qed

lemma sim_inv_initial: "sim_inv initial_simulator"
  by (simp add: sim_inv_def initial_simulator_def flags_wf_def)

lemma sim_inv_addGear:
  assumes "sim_inv s"
  shows "sim_inv (addGear form s)"
proof -
  from assms have "nextGearId s \<notin> gid ` set (gears s)" by (auto simp: sim_inv_def)
  with assms show ?thesis
    by (auto simp: sim_inv_def addGear_def selectGear_def Let_def flags_wf_def
        intro: less_SucI)
qed

lemma sim_inv_gears_cong:
  assumes "sim_inv s"
    and "list_all2 (\<lambda>g g'. gid g' = gid g \<and> incompatibleWith g' = incompatibleWith g \<and>
            jammingError g' = jammingError g \<and> overlapError g' = overlapError g) (gears s) gs'"
  shows "sim_inv (s\<lparr>gears := gs'\<rparr>)"
proof -
  from assms(2) have ids: "map gid gs' = map gid (gears s)"
    by (induction rule: list_all2_induct) simp_all
  then have "gid ` set gs' = gid ` set (gears s)" by (metis set_map)
  moreover have "flags_wf gs'"
    unfolding flags_wf_def
  proof
    fix g' assume "g' \<in> set gs'"
    then obtain k where k: "k < length gs'" "gs' ! k = g'" by (auto simp: in_set_conv_nth)
    with assms(2) have "gears s ! k \<in> set (gears s)"
      and "incompatibleWith g' = incompatibleWith (gears s ! k)"
        "jammingError g' = jammingError (gears s ! k)"
        "overlapError g' = overlapError (gears s ! k)"
      by (auto simp: list_all2_conv_all_nth)
    with assms(1) show "jammingError g' \<or> overlapError g' \<longrightarrow> incompatibleWith g' \<noteq> None"
      by (simp add: sim_inv_def flags_wf_def)
  qed
  moreover have "\<forall>g'\<in>set gs'. gid g' < nextGearId s"
  proof
    fix g' assume "g' \<in> set gs'"
    then have "gid g' \<in> gid ` set (gears s)" using calculation(1) by blast
    then obtain g where "g \<in> set (gears s)" "gid g' = gid g" by blast
    with assms(1) show "gid g' < nextGearId s" by (simp add: sim_inv_def)
  qed
  ultimately show ?thesis
    using assms(1) ids by (simp add: sim_inv_def)
qed

lemma sim_inv_updateConnections:
  assumes "sim_inv s"
  shows "sim_inv (updateConnections s)"
proof -
  have ids: "map gid (gears (updateConnections s)) = map gid (gears s)"
    by (rule same_geometry_ids[OF updateConnections_geometry])
  then have "gid ` set (gears (updateConnections s)) = gid ` set (gears s)" by (metis set_map)
  moreover have "nextGearId (updateConnections s) = nextGearId s"
    by (simp add: updateConnections_def Let_def split: prod.splits)
  moreover have "\<forall>g'\<in>set (gears (updateConnections s)). gid g' < nextGearId s"
  proof
    fix g' assume "g' \<in> set (gears (updateConnections s))"
    then have "gid g' \<in> gid ` set (gears s)" using calculation(1) by blast
    then obtain g where "g \<in> set (gears s)" "gid g' = gid g" by blast
    with assms show "gid g' < nextGearId s" by (simp add: sim_inv_def)
  qed
  ultimately show ?thesis
    using assms ids updateConnections_flags_wf[of s] by (simp add: sim_inv_def)
qed

lemma sim_inv_updateSelectedGearPosition:
  assumes "sim_inv s"
  shows "sim_inv (updateSelectedGearPosition x y z s)"
proof (cases "selectedGear s")
  case None
  with assms show ?thesis by (simp add: updateSelectedGearPosition_def)
next
  case (Some sel)
  have "sim_inv (s\<lparr>gears := update_gear sel
                (\<lambda>g. g\<lparr>position := \<lparr> pos_x = or_default x 0, pos_y = or_default y 0,
                                      pos_z = or_default z 0 \<rparr>\<rparr>) (gears s)\<rparr>)"
    by (rule sim_inv_gears_cong[OF assms])
      (simp add: update_gear_def list_all2_map2 list_all2_refl)
  with Some show ?thesis
    by (simp add: updateSelectedGearPosition_def sim_inv_updateConnections)
qed

lemma sim_inv_updateSelectedGearParams:
  assumes "sim_inv s"
  shows "sim_inv (updateSelectedGearParams form s)"
proof (cases "selectedGear s")
  case None
  with assms show ?thesis by (simp add: updateSelectedGearParams_def)
next
  case (Some sel)
  show ?thesis
  proof (cases "lookup_gear (gears s) sel")
    case None
    with Some assms show ?thesis by (simp add: updateSelectedGearParams_def sim_inv_def)
  next
    case found: (Some g0)
    let ?p = "validate_params form"
    have "sim_inv (s\<lparr>gears := update_gear sel
                      (\<lambda>g. g\<lparr>params :=
                         \<lparr> teeth = teeth ?p, module = module ?p,
                           pressureAngle = pressureAngle ?p, thickness = thickness ?p,
                           boreDiameter = boreDiameter ?p,
                           pitchDiameter = geo_pitchDiameter (GearGeometry ?p) \<rparr>\<rparr>) (gears s)\<rparr>)"
      by (rule sim_inv_gears_cong[OF assms])
        (simp add: update_gear_def list_all2_map2 list_all2_refl)
    with Some found show ?thesis
      by (simp add: updateSelectedGearParams_def Let_def sim_inv_updateConnections)
  qed
qed

lemma sim_inv_calculateGearSpeeds:
  assumes "sim_inv s"
  shows "sim_inv (calculateGearSpeeds s)"
proof (cases "find_driver (gears s)")
  case None
  with assms show ?thesis by (simp add: calculateGearSpeeds_def)
next
  case (Some d)
  have eq: "calculateGearSpeeds s = s\<lparr>gears := gears (calculateGearSpeeds s)\<rparr>"
    using Some by (simp add: calculateGearSpeeds_def Let_def del: speed_bfs.simps)
  have "sim_inv (s\<lparr>gears := gears (calculateGearSpeeds s)\<rparr>)"
  proof (rule sim_inv_gears_cong[OF assms])
    from calculateGearSpeeds_frame(1)[OF Some]
    show "list_all2 (\<lambda>g g'. gid g' = gid g \<and> incompatibleWith g' = incompatibleWith g \<and>
            jammingError g' = jammingError g \<and> overlapError g' = overlapError g)
            (gears s) (gears (calculateGearSpeeds s))"
      unfolding speed_frame_def
      by (rule list_all2_mono) (simp add: same_static_def)
  qed
  with eq show ?thesis by simp
qed

lemma sim_inv_play:
  assumes "sim_inv s"
  shows "sim_inv (snd (play s))"
proof (cases "find jammingError (gears s)")
  case None
  have "sim_inv (s\<lparr>isPlaying := True\<rparr>)" using assms by (simp add: sim_inv_def)
  then have "sim_inv (calculateGearSpeeds (s\<lparr>isPlaying := True\<rparr>))"
    by (rule sim_inv_calculateGearSpeeds)
  with None show ?thesis by (simp add: play_def)
next
  case (Some g)
  with assms show ?thesis by (simp add: play_def)
qed

lemma sim_inv_deleteSelectedGear:
  assumes "sim_inv s"
  shows "sim_inv (deleteSelectedGear s)"
proof (cases "selectedGear s")
  case None
  with assms show ?thesis by (simp add: deleteSelectedGear_def)
next
  case (Some sel)
  show ?thesis
  proof (cases "lookup_gear (gears s) sel")
    case None
    with Some assms show ?thesis by (simp add: deleteSelectedGear_def sim_inv_def)
  next
    case found: (Some g0)
    define step where "step =
        (\<lambda>g. g\<lparr>connectedTo := filter (\<lambda>c. c \<noteq> sel) (connectedTo g)\<rparr>)
        \<circ> (\<lambda>g. if gid g = sel then clearIncompatibleState g else g)
        \<circ> (\<lambda>g. if incompatibleWith g = Some sel then clearIncompatibleState g else g)"
    have gears': "gears (deleteSelectedGear s)
        = filter (\<lambda>g. gid g \<noteq> sel) (map step (gears s))"
      using Some found
      by (simp add: deleteSelectedGear_def Let_def update_gear_def step_def)
    have next_id: "nextGearId (deleteSelectedGear s) = nextGearId s"
      using Some found by (simp add: deleteSelectedGear_def Let_def)
    have gid_step: "\<And>g. gid (step g) = gid g"
      by (simp add: step_def clearIncompatibleState_def)
    have wf_step: "\<And>g. (jammingError g \<or> overlapError g \<longrightarrow> incompatibleWith g \<noteq> None) \<Longrightarrow>
        (jammingError (step g) \<or> overlapError (step g) \<longrightarrow> incompatibleWith (step g) \<noteq> None)"
      by (auto simp: step_def clearIncompatibleState_def)
    have "map gid (map step (gears s)) = map gid (gears s)" by (simp add: gid_step)
    moreover from assms have "distinct (map gid (gears s))" by (simp add: sim_inv_def)
    ultimately have "distinct (map gid (map step (gears s)))" by (simp only:)
    then have "distinct (map gid (filter (\<lambda>g. gid g \<noteq> sel) (map step (gears s))))"
      by (rule distinct_map_filter)
    moreover have "flags_wf (filter (\<lambda>g. gid g \<noteq> sel) (map step (gears s)))"
      using assms wf_step by (auto simp: flags_wf_def sim_inv_def)
    moreover have "\<forall>g\<in>set (filter (\<lambda>g. gid g \<noteq> sel) (map step (gears s))).
        gid g < nextGearId s"
      using assms gid_step by (auto simp: sim_inv_def)
    ultimately show ?thesis
      unfolding sim_inv_def gears' next_id by simp
  qed
qed

subsection \<open>References stay inside the registry\<close>

text \<open>Every operation keeps the references in \<^verbatim>\<open>incompatibleWith\<close> inside the registry, so
  the second clearing loop of the rebuild always finds its target.\<close>

lemma lookup_gear_None_iff: "lookup_gear gs i = None \<longleftrightarrow> i \<notin> gid ` set gs"
  unfolding lookup_gear_def by (induction gs) auto

lemma refs_wf_iff:
  "refs_wf gs \<longleftrightarrow> (\<forall>g\<in>set gs. \<forall>t. incompatibleWith g = Some t \<longrightarrow> t \<in> gid ` set gs)"
  by (auto simp: refs_wf_def lookup_gear_None_iff split: option.splits)

lemma refs_wf_rel:
  assumes wf: "refs_wf gs"
    and rel: "list_all2 (\<lambda>g g'. gid g' = gid g \<and>
                 (incompatibleWith g' = incompatibleWith g \<or> incompatibleWith g' = None \<or>
                  (\<exists>t\<in>gid ` set gs. incompatibleWith g' = Some t))) gs gs'"
  shows "refs_wf gs'"
proof -
  from rel have "map gid gs' = map gid gs"
    by (induction rule: list_all2_induct) simp_all
  then have ids: "gid ` set gs' = gid ` set gs" by (metis set_map)
  show ?thesis
    unfolding refs_wf_iff
  proof (intro ballI allI impI)
    fix g' t assume "g' \<in> set gs'" and t: "incompatibleWith g' = Some t"
    then obtain k where k: "k < length gs'" "gs' ! k = g'" by (auto simp: in_set_conv_nth)
    from rel k have len: "k < length gs"
      and cases: "incompatibleWith g' = incompatibleWith (gs ! k) \<or> incompatibleWith g' = None \<or>
                  (\<exists>t\<in>gid ` set gs. incompatibleWith g' = Some t)"
      by (auto simp: list_all2_conv_all_nth)
    from len have mem: "gs ! k \<in> set gs" by simp
    from cases t have "t \<in> gid ` set gs"
    proof (elim disjE)
      assume "incompatibleWith g' = incompatibleWith (gs ! k)"
      with t have "incompatibleWith (gs ! k) = Some t" by simp
      with wf mem show ?thesis unfolding refs_wf_iff by blast
    qed auto
    with ids show "t \<in> gid ` set gs'" by simp
  qed
qed

lemma make_connections_jamming_pair:
  "snd (make_connections cands gs jamming) = Some (i, j) \<Longrightarrow>
     jamming = Some (i, j) \<or> (\<exists>(a, b, d)\<in>set cands. gid a = i \<and> gid b = j)"
proof (induction cands gs jamming rule: make_connections.induct)
  case (1 gs jamming)
  then show ?case by simp
next
  case (2 gear1 gear2 distance rest gs jamming)
  show ?case
  proof (cases "checkGearsOverlap gear1 gear2")
    case True
    with 2 show ?thesis by auto
  next
    case ov: False
    show ?thesis
    proof (cases "areGearsCompatible gear1 gear2")
      case False
      with 2 ov show ?thesis by auto
    next
      case comp: True
      show ?thesis
      proof (cases "wouldCauseJamming gs (gid gear1) (gid gear2)")
        case True
        with 2(3)[OF ov _ True] 2(5) ov comp
        have "(if jamming = None then Some (gid gear1, gid gear2) else jamming) = Some (i, j)
            \<or> (\<exists>(a, b, d)\<in>set rest. gid a = i \<and> gid b = j)"
          by simp
        then show ?thesis by (auto split: if_splits)
      next
        case False
        with 2(4)[OF ov _ False] 2(5) ov comp show ?thesis by auto
      qed
    qed
  qed
qed

lemma error_gear_snd:
  "snd (error_gear selected (i, j)) = i \<or> snd (error_gear selected (i, j)) = j"
  by (simp add: error_gear_def)

lemma rebuild_jamming_pair:
  assumes "snd (rebuild_graph gs) = Some (i, j)"
  shows "i \<in> gid ` set gs \<and> j \<in> gid ` set gs"
proof -
  from make_connections_jamming_pair[OF assms[unfolded rebuild_graph_def]]
  obtain a b d where mem: "(a, b, d) \<in> set (potentialConnections (clear_connections gs))"
    and ids: "gid a = i" "gid b = j"
    by auto
  from potentialConnections_member(1,2)[OF mem]
  have "a \<in> set (clear_connections gs)" "b \<in> set (clear_connections gs)" .
  with ids show ?thesis by (auto simp: clear_connections_def)
qed

lemma refs_wf_updateConnections:
  assumes "refs_wf (gears s)"
  shows "refs_wf (gears (updateConnections s))"
proof (rule refs_wf_rel[OF assms], rule list_all2_all_nthI)
  show "length (gears s) = length (gears (updateConnections s))"
    by (simp add: length_updateConnections)
next
  fix k assume k: "k < length (gears s)"
  let ?A = "clear_position_errors (gears s)"
  let ?B = "clear_moved_away ?A"
  let ?ov = "first_overlap (clear_connections ?B)"
  let ?jam = "snd (rebuild_graph ?B)"
  let ?g = "gears s ! k"
  let ?g' = "gears (updateConnections s) ! k"
  define b where "b = clear_if_moved_away ?A (clear_position_error ?g)"
  from updateConnections_nth[OF k] obtain c where
    F: "?g' = surface_gear (selectedGear s) ?ov ?jam (b\<lparr>connectedTo := c\<rparr>)"
    unfolding b_def by blast
  have idsB: "gid ` set ?B = gid ` set (gears s)"
    using same_geometry_ids[OF clears_geometry[of "gears s"]] by (metis set_map)
  have id: "gid ?g' = gid ?g"
    using list_all2_nthD[OF updateConnections_geometry[of s] k] by (simp add: same_geometry_def)
  have b: "incompatibleWith b = incompatibleWith ?g \<or> incompatibleWith b = None"
    by (auto simp: b_def clear_if_moved_away_def clear_position_error_def
        clearIncompatibleState_def split: option.splits)
  have ov: "i \<in> gid ` set (gears s) \<and> j \<in> gid ` set (gears s)" if "?ov = Some (i, j)" for i j
    using first_overlap_Some[OF that] idsB by (auto simp: clear_connections_def)
  have jam: "i \<in> gid ` set (gears s) \<and> j \<in> gid ` set (gears s)" if "?jam = Some (i, j)" for i j
    using rebuild_jamming_pair[OF that] idsB by simp
  have "incompatibleWith ?g' = incompatibleWith b \<or>
        (\<exists>t\<in>gid ` set (gears s). incompatibleWith ?g' = Some t)"
  proof (cases ?ov)
    case None
    show ?thesis
    proof (cases ?jam)
      case jn: None
      with None F show ?thesis by (simp add: surface_gear_def)
    next
      case (Some pair)
      obtain i j where pair: "pair = (i, j)" by (cases pair)
      from jam Some pair error_gear_snd[of "selectedGear s" i j]
      have "snd (error_gear (selectedGear s) pair) \<in> gid ` set (gears s)" by auto
      with None Some F show ?thesis by (auto simp: surface_gear_def)
    qed
  next
    case (Some pair)
    obtain i j where pair: "pair = (i, j)" by (cases pair)
    from ov Some pair error_gear_snd[of "selectedGear s" i j]
    have "snd (error_gear (selectedGear s) pair) \<in> gid ` set (gears s)" by auto
    with Some F show ?thesis by (auto simp: surface_gear_def)
  qed
  with b id show "gid ?g' = gid ?g \<and>
       (incompatibleWith ?g' = incompatibleWith ?g \<or> incompatibleWith ?g' = None \<or>
        (\<exists>t\<in>gid ` set (gears s). incompatibleWith ?g' = Some t))"
    by auto
qed


lemma refs_wf_initial: "refs_wf (gears initial_simulator)"
  by (simp add: refs_wf_def initial_simulator_def)

lemma refs_wf_addGear:
  assumes "refs_wf (gears s)"
  shows "refs_wf (gears (addGear form s))"
  using assms unfolding refs_wf_iff
  by (auto simp: addGear_def selectGear_def Let_def)

lemma refs_wf_same_refs:
  assumes "refs_wf gs"
    and "list_all2 (\<lambda>g g'. gid g' = gid g \<and> incompatibleWith g' = incompatibleWith g) gs gs'"
  shows "refs_wf gs'"
  by (rule refs_wf_rel[OF assms(1)], rule list_all2_mono[OF assms(2)]) simp

lemma refs_wf_updateSelectedGearPosition:
  assumes "refs_wf (gears s)"
  shows "refs_wf (gears (updateSelectedGearPosition x y z s))"
proof (cases "selectedGear s")
  case None
  with assms show ?thesis by (simp add: updateSelectedGearPosition_def)
next
  case (Some sel)
  let ?gs = "update_gear sel
                (\<lambda>g. g\<lparr>position := \<lparr> pos_x = or_default x 0, pos_y = or_default y 0,
                                      pos_z = or_default z 0 \<rparr>\<rparr>) (gears s)"
  have "refs_wf ?gs"
    by (rule refs_wf_same_refs[OF assms])
      (simp add: update_gear_def list_all2_map2 list_all2_refl)
  then have "refs_wf (gears (updateConnections (s\<lparr>gears := ?gs\<rparr>)))"
    using refs_wf_updateConnections[of "s\<lparr>gears := ?gs\<rparr>"] by simp
  with Some show ?thesis by (simp add: updateSelectedGearPosition_def)
qed

lemma refs_wf_updateSelectedGearParams:
  assumes "refs_wf (gears s)"
  shows "refs_wf (gears (updateSelectedGearParams form s))"
proof (cases "selectedGear s")
  case None
  with assms show ?thesis by (simp add: updateSelectedGearParams_def)
next
  case (Some sel)
  show ?thesis
  proof (cases "lookup_gear (gears s) sel")
    case None
    with Some assms show ?thesis by (simp add: updateSelectedGearParams_def)
  next
    case found: (Some g0)
    let ?p = "validate_params form"
    let ?gs = "update_gear sel
                      (\<lambda>g. g\<lparr>params :=
                         \<lparr> teeth = teeth ?p, module = module ?p,
                           pressureAngle = pressureAngle ?p, thickness = thickness ?p,
                           boreDiameter = boreDiameter ?p,
                           pitchDiameter = geo_pitchDiameter (GearGeometry ?p) \<rparr>\<rparr>) (gears s)"
    have "refs_wf ?gs"
      by (rule refs_wf_same_refs[OF assms])
        (simp add: update_gear_def list_all2_map2 list_all2_refl)
    then have "refs_wf (gears (updateConnections (s\<lparr>gears := ?gs\<rparr>)))"
      using refs_wf_updateConnections[of "s\<lparr>gears := ?gs\<rparr>"] by simp
    with Some found show ?thesis by (simp add: updateSelectedGearParams_def Let_def)
  qed
qed

lemma refs_wf_calculateGearSpeeds:
  assumes "refs_wf (gears s)"
  shows "refs_wf (gears (calculateGearSpeeds s))"
proof (cases "find_driver (gears s)")
  case None
  with assms show ?thesis by (simp add: calculateGearSpeeds_def)
next
  case (Some d)
  show ?thesis
  proof (rule refs_wf_same_refs[OF assms])
    from calculateGearSpeeds_frame(1)[OF Some]
    show "list_all2 (\<lambda>g g'. gid g' = gid g \<and> incompatibleWith g' = incompatibleWith g)
            (gears s) (gears (calculateGearSpeeds s))"
      unfolding speed_frame_def
      by (rule list_all2_mono) (simp add: same_static_def)
  qed
qed

lemma refs_wf_play:
  assumes "refs_wf (gears s)"
  shows "refs_wf (gears (snd (play s)))"
proof (cases "find jammingError (gears s)")
  case None
  from assms have "refs_wf (gears (s\<lparr>isPlaying := True\<rparr>))" by simp
  then have "refs_wf (gears (calculateGearSpeeds (s\<lparr>isPlaying := True\<rparr>)))"
    by (rule refs_wf_calculateGearSpeeds)
  with None show ?thesis by (simp add: play_def)
next
  case (Some g)
  with assms show ?thesis by (simp add: play_def)
qed

lemma refs_wf_deleteSelectedGear:
  assumes "refs_wf (gears s)"
  shows "refs_wf (gears (deleteSelectedGear s))"
proof (cases "selectedGear s")
  case None
  with assms show ?thesis by (simp add: deleteSelectedGear_def)
next
  case (Some sel)
  show ?thesis
  proof (cases "lookup_gear (gears s) sel")
    case None
    with Some assms show ?thesis by (simp add: deleteSelectedGear_def)
  next
    case found: (Some g0)
    define step where "step =
        (\<lambda>g. g\<lparr>connectedTo := filter (\<lambda>c. c \<noteq> sel) (connectedTo g)\<rparr>)
        \<circ> (\<lambda>g. if gid g = sel then clearIncompatibleState g else g)
        \<circ> (\<lambda>g. if incompatibleWith g = Some sel then clearIncompatibleState g else g)"
    have gears': "gears (deleteSelectedGear s)
        = filter (\<lambda>g. gid g \<noteq> sel) (map step (gears s))"
      using Some found
      by (simp add: deleteSelectedGear_def Let_def update_gear_def step_def)
    have gid_step: "\<And>g. gid (step g) = gid g"
      by (simp add: step_def clearIncompatibleState_def)
    have ref_step: "\<And>g t. incompatibleWith (step g) = Some t \<Longrightarrow>
        incompatibleWith g = Some t \<and> t \<noteq> sel"
      by (auto simp: step_def clearIncompatibleState_def split: if_splits)
    show ?thesis
      unfolding gears' refs_wf_iff
    proof (intro ballI allI impI)
      fix g' t
      assume "g' \<in> set (filter (\<lambda>g. gid g \<noteq> sel) (map step (gears s)))"
        and t: "incompatibleWith g' = Some t"
      then obtain g where g: "g \<in> set (gears s)" "g' = step g" by auto
      from ref_step[of g t] t g(2) have "incompatibleWith g = Some t" "t \<noteq> sel" by simp_all
      with assms g(1) have "t \<in> gid ` set (gears s)" unfolding refs_wf_iff by blast
      then obtain h where h: "h \<in> set (gears s)" "gid h = t" by blast
      with \<open>t \<noteq> sel\<close> have "step h \<in> set (filter (\<lambda>g. gid g \<noteq> sel) (map step (gears s)))"
        by (simp add: gid_step)
      moreover have "gid (step h) = t" using h(2) by (simp add: gid_step)
      ultimately show "t \<in> gid ` set (filter (\<lambda>g. gid g \<noteq> sel) (map step (gears s)))"
        by (metis imageI)
    qed
  qed
qed

lemma rebuild_target_in_registry:
  assumes "refs_wf (gears s)"
    and "g \<in> set (clear_position_errors (gears s))" and "incompatibleWith g = Some t"
  shows "lookup_gear (clear_position_errors (gears s)) t \<noteq> None"
proof -
  have "list_all2 (\<lambda>g g'. gid g' = gid g \<and>
          (incompatibleWith g' = incompatibleWith g \<or> incompatibleWith g' = None \<or>
           (\<exists>t\<in>gid ` set (gears s). incompatibleWith g' = Some t)))
        (gears s) (clear_position_errors (gears s))"
    unfolding clear_position_errors_def list_all2_map2
    by (rule list_all2_refl) (simp add: clearIncompatibleState_def)
  from refs_wf_rel[OF assms(1) this] assms(2,3) show ?thesis
    by (auto simp: refs_wf_def split: option.splits)
qed

section \<open>The jamming decision of the rebuild\<close>

text \<open>Every pair of gears within \<^verbatim>\<open>meshThreshold\<close> is a candidate exactly once, so the
  list of candidates splits at the pair into the candidates tried before it and those
  tried after it; only the pair's own candidate can add or refuse its edge.\<close>

lemma all_pairs_nth:
  "i < j \<Longrightarrow> j < length xs \<Longrightarrow> (xs ! i, xs ! j) \<in> set (all_pairs xs)"
proof (induction xs arbitrary: i j)
  case Nil
  then show ?case by simp
next
  case (Cons a as)
  from Cons.prems obtain j' where j: "j = Suc j'" by (cases j) auto
  show ?case
  proof (cases i)
    case 0
    with j Cons.prems show ?thesis by simp
  next
    case (Suc i')
    with j Cons.prems have "(as ! i', as ! j') \<in> set (all_pairs as)"
      by (intro Cons.IH) simp_all
    with Suc j show ?thesis by simp
  qed
qed

lemma all_pairs_index:
  "(x, y) \<in> set (all_pairs xs) \<Longrightarrow> \<exists>i j. i < j \<and> j < length xs \<and> xs ! i = x \<and> xs ! j = y"
proof (induction xs)
  case Nil
  then show ?case by simp
next
  case (Cons a as)
  from Cons.prems consider "x = a" "y \<in> set as" | "(x, y) \<in> set (all_pairs as)" by auto
  then show ?case
  proof cases
    case 1
    then obtain k where "k < length as" "as ! k = y" by (auto simp: in_set_conv_nth)
    with 1 show ?thesis by (intro exI[of _ 0] exI[of _ "Suc k"]) simp
  next
    case 2
    from Cons.IH[OF this] obtain i j where "i < j" "j < length as" "as ! i = x" "as ! j = y"
      by blast
    then show ?thesis by (intro exI[of _ "Suc i"] exI[of _ "Suc j"]) simp
  qed
qed

lemma distinct_all_pairs: "distinct xs \<Longrightarrow> distinct (all_pairs xs)"
proof (induction xs)
  case Nil
  then show ?case by simp
next
  case (Cons a as)
  have "distinct (map (Pair a) as)"
    using Cons.prems by (simp add: distinct_map inj_on_def)
  moreover have "distinct (all_pairs as)" using Cons by simp
  moreover have "set (map (Pair a) as) \<inter> set (all_pairs as) = {}"
    using Cons.prems all_pairs_subset[of _ _ as] by auto
  ultimately show ?case by simp
qed

lemma potentialConnections_set:
  "(x, y, d) \<in> set (potentialConnections gs) \<longleftrightarrow>
     (x, y) \<in> set (all_pairs gs) \<and> \<bar>currentDistance x y - idealDistance x y\<bar> < 3
     \<and> d = currentDistance x y"
  by (auto simp: potentialConnections_def)

lemma distinct_potentialConnections:
  assumes "distinct gs"
  shows "distinct (potentialConnections gs)"
proof -
  have "inj_on (\<lambda>(gear1, gear2). (gear1, gear2, currentDistance gear1 gear2)) A" for A
    by (auto simp: inj_on_def)
  then show ?thesis
    unfolding potentialConnections_def
    by (simp add: distinct_map distinct_all_pairs[OF assms])
qed

lemma candidate_unique:
  assumes dist: "distinct (map gid gs)" and ij: "i < j" "j < length gs"
    and mem: "(x, y, d) \<in> set (potentialConnections gs)"
    and ids: "gid x = gid (gs ! i) \<and> gid y = gid (gs ! j)
            \<or> gid x = gid (gs ! j) \<and> gid y = gid (gs ! i)"
  shows "(x, y, d) = (gs ! i, gs ! j, currentDistance (gs ! i) (gs ! j))"
proof -
  from mem have xy: "(x, y) \<in> set (all_pairs gs)" and d: "d = currentDistance x y"
    by (simp_all add: potentialConnections_set)
  from all_pairs_index[OF xy] obtain i' j' where
    ij': "i' < j'" "j' < length gs" "gs ! i' = x" "gs ! j' = y"
    by blast
  have inj: "\<And>k l. k < length gs \<Longrightarrow> l < length gs \<Longrightarrow> gid (gs ! k) = gid (gs ! l) \<Longrightarrow> k = l"
    using dist by (metis length_map nth_eq_iff_index_eq nth_map)
  from ids show ?thesis
  proof
    assume "gid x = gid (gs ! i) \<and> gid y = gid (gs ! j)"
    with ij ij' inj[of i' i] inj[of j' j] have "i' = i" "j' = j" by simp_all
    with ij' d show ?thesis by simp
  next
    assume "gid x = gid (gs ! j) \<and> gid y = gid (gs ! i)"
    with ij ij' inj[of i' j] inj[of j' i] have "i' = j" "j' = i" by simp_all
    with ij ij'(1) show ?thesis by simp
  qed
qed

lemma make_connections_append:
  "make_connections (xs @ ys) gs jam =
     (case make_connections xs gs jam of (gs', jam') \<Rightarrow> make_connections ys gs' jam')"
  by (induction xs gs jam rule: make_connections.induct) simp_all

lemma make_connections_step:
  assumes "areGearsCompatible gear1 gear2" and "\<not> checkGearsOverlap gear1 gear2"
    and "gid gear1 \<noteq> gid gear2"
  shows "make_connections ((gear1, gear2, distance) # rest) gs jamming =
           (if \<exists>n. shortest_path gs (gid gear1) (gid gear2) n \<and> odd (n + 1)
            then make_connections rest gs
                   (if jamming = None then Some (gid gear1, gid gear2) else jamming)
            else make_connections rest (connectGears (gid gear1) (gid gear2) gs) jamming)"
  using assms wouldCauseJamming_correct[OF assms(3), of gs]
  by simp

lemma connectGears_other_pair:
  assumes "\<not> (x = a \<and> y = b)" and "\<not> (x = b \<and> y = a)"
  shows "b \<in> set (adjacent (connectGears x y gs) a) \<longleftrightarrow> b \<in> set (adjacent gs a)"
  using assms
  by (auto simp: connectGears_def adjacent_push_connection lookup_push_connection_None)

lemma make_connections_keeps_pair:
  assumes "\<forall>(x, y, d)\<in>set cands. \<not> (gid x = a \<and> gid y = b) \<and> \<not> (gid x = b \<and> gid y = a)"
  shows "b \<in> set (adjacent (fst (make_connections cands gs jam)) a) \<longleftrightarrow> b \<in> set (adjacent gs a)"
  using assms
proof (induction cands gs jam rule: make_connections.induct)
  case (1 gs jamming)
  then show ?case by simp
next
  case (2 gear1 gear2 distance rest gs jamming)
  from "2.prems"
  have rest: "\<forall>(x, y, d)\<in>set rest. \<not> (gid x = a \<and> gid y = b) \<and> \<not> (gid x = b \<and> gid y = a)"
    and this_one: "\<not> (gid gear1 = a \<and> gid gear2 = b)" "\<not> (gid gear1 = b \<and> gid gear2 = a)"
    by simp_all
  show ?case
  proof (cases "checkGearsOverlap gear1 gear2 \<or> \<not> areGearsCompatible gear1 gear2
                \<or> wouldCauseJamming gs (gid gear1) (gid gear2)")
    case True
    with "2.IH"(1,2,3) rest show ?thesis by auto
  next
    case False
    with "2.IH"(4) rest
    have "b \<in> set (adjacent (fst (make_connections rest
              (connectGears (gid gear1) (gid gear2) gs) jamming)) a)
          \<longleftrightarrow> b \<in> set (adjacent (connectGears (gid gear1) (gid gear2) gs) a)"
      by simp
    also have "\<dots> \<longleftrightarrow> b \<in> set (adjacent gs a)"
      by (rule connectGears_other_pair[OF this_one])
    finally show ?thesis using False by simp
  qed
qed

lemma make_connections_keeps_jamming:
  "jam \<noteq> None \<Longrightarrow> snd (make_connections cs gs jam) = jam"
  by (induction cs gs jam rule: make_connections.induct) auto

lemma lookup_gear_nth:
  "distinct (map gid xs) \<Longrightarrow> k < length xs \<Longrightarrow> lookup_gear xs (gid (xs ! k)) = Some (xs ! k)"
proof (induction xs arbitrary: k)
  case Nil
  then show ?case by simp
next
  case (Cons a as)
  show ?case
  proof (cases k)
    case 0
    then show ?thesis by (simp add: lookup_gear_def)
  next
    case (Suc k')
    with Cons.prems have "as ! k' \<in> set as" and "gid a \<notin> gid ` set as" by simp_all
    then have "gid (as ! k') \<noteq> gid a" by (metis imageI)
    with Suc Cons show ?thesis by (simp add: lookup_gear_def)
  qed
qed

lemma adjacent_nth:
  "distinct (map gid xs) \<Longrightarrow> k < length xs \<Longrightarrow> adjacent xs (gid (xs ! k)) = connectedTo (xs ! k)"
  by (simp add: adjacent_def lookup_gear_nth)


lemma candidate_split:
  assumes dist: "distinct (map gid G)" and ij: "i < j" "j < length G"
    and range: "\<bar>currentDistance (G ! i) (G ! j) - idealDistance (G ! i) (G ! j)\<bar> < 3"
  shows "\<exists>post. potentialConnections G =
            takeWhile (\<lambda>(gear1, gear2, distance).
                         \<not> (gid gear1 = gid (G ! i) \<and> gid gear2 = gid (G ! j)))
              (potentialConnections G)
            @ (G ! i, G ! j, currentDistance (G ! i) (G ! j)) # post
          \<and> (\<forall>(x, y, d)\<in>set (takeWhile (\<lambda>(gear1, gear2, distance).
                         \<not> (gid gear1 = gid (G ! i) \<and> gid gear2 = gid (G ! j)))
                 (potentialConnections G)) \<union> set post.
                \<not> (gid x = gid (G ! i) \<and> gid y = gid (G ! j)) \<and>
                \<not> (gid x = gid (G ! j) \<and> gid y = gid (G ! i)))"
proof -
  define P :: "gear \<times> gear \<times> real \<Rightarrow> bool"
    where "P = (\<lambda>(gear1, gear2, distance). \<not> (gid gear1 = gid (G ! i) \<and> gid gear2 = gid (G ! j)))"
  define pc where "pc = potentialConnections G"
  define c where "c = (G ! i, G ! j, currentDistance (G ! i) (G ! j))"
  define pre where "pre = takeWhile P pc"
  have cmem: "c \<in> set pc"
    unfolding c_def pc_def using all_pairs_nth[OF ij] range
    by (simp add: potentialConnections_set)
  have notP: "\<not> P c" by (simp add: P_def c_def)
  from cmem notP have "dropWhile P pc \<noteq> []" by (auto simp: dropWhile_eq_Nil_conv)
  then obtain e post where dw: "dropWhile P pc = e # post" by (cases "dropWhile P pc") auto
  have "\<not> P (hd (dropWhile P pc))" by (rule hd_dropWhile[OF \<open>dropWhile P pc \<noteq> []\<close>])
  with dw have ne: "\<not> P e" by simp
  have "e \<in> set (dropWhile P pc)" using dw by simp
  then have emem: "e \<in> set pc" by (rule set_dropWhileD)
  obtain x y d where e: "e = (x, y, d)" by (cases e)
  from ne e have "gid x = gid (G ! i) \<and> gid y = gid (G ! j)" by (simp add: P_def)
  with candidate_unique[OF dist ij, of x y d] emem e have ec: "e = c"
    by (simp add: pc_def c_def)
  have "pc = takeWhile P pc @ dropWhile P pc" by simp
  with dw ec have split: "pc = pre @ c # post" by (simp add: pre_def)
  from dist have "distinct G" by (simp add: distinct_map)
  then have "distinct pc" unfolding pc_def by (rule distinct_potentialConnections)
  then have "distinct (pre @ c # post)" using split by simp
  then have cnot: "c \<notin> set pre \<union> set post" by auto
  have others: "\<forall>(x, y, d)\<in>set pre \<union> set post.
                \<not> (gid x = gid (G ! i) \<and> gid y = gid (G ! j)) \<and>
                \<not> (gid x = gid (G ! j) \<and> gid y = gid (G ! i))"
  proof (clarify, rule ccontr)
    fix x y d
    assume mem: "(x, y, d) \<in> set pre \<union> set post"
      and "\<not> (\<not> (gid x = gid (G ! i) \<and> gid y = gid (G ! j)) \<and>
               \<not> (gid x = gid (G ! j) \<and> gid y = gid (G ! i)))"
    then have ids: "gid x = gid (G ! i) \<and> gid y = gid (G ! j)
            \<or> gid x = gid (G ! j) \<and> gid y = gid (G ! i)"
      by blast
    from mem have "(x, y, d) \<in> set pc" by (subst split) auto
    then have "(x, y, d) = c"
      unfolding pc_def c_def using ids by (intro candidate_unique[OF dist ij]) simp_all
    with mem cnot show False by simp
  qed
  from split others show ?thesis
    unfolding pre_def pc_def c_def P_def by blast
qed

lemma same_but_connections_ids:
  "list_all2 same_but_connections xs ys \<Longrightarrow> map gid ys = map gid xs"
  by (induction rule: list_all2_induct) (simp_all add: same_but_connections_def same_geometry_def)

lemma rebuild_pair:
  assumes dist: "distinct (map gid G)" and ij: "i < j" "j < length G"
    and range: "\<bar>currentDistance (G ! i) (G ! j) - idealDistance (G ! i) (G ! j)\<bar> < 3"
    and compat: "areGearsCompatible (G ! i) (G ! j)"
    and nov: "\<not> checkGearsOverlap (G ! i) (G ! j)"
    and empty: "\<forall>g\<in>set G. connectedTo g = []"
    and cur: "cur = fst (make_connections
                (takeWhile (\<lambda>(gear1, gear2, distance).
                         \<not> (gid gear1 = gid (G ! i) \<and> gid gear2 = gid (G ! j)))
                   (potentialConnections G)) G None)"
    and R: "R = make_connections (potentialConnections G) G None"
  shows "(\<exists>n. shortest_path cur (gid (G ! i)) (gid (G ! j)) n \<and> odd (n + 1)) \<Longrightarrow>
           gid (G ! j) \<notin> set (connectedTo (fst R ! i)) \<and>
           gid (G ! i) \<notin> set (connectedTo (fst R ! j)) \<and> snd R \<noteq> None"
    and "\<not> (\<exists>n. shortest_path cur (gid (G ! i)) (gid (G ! j)) n \<and> odd (n + 1)) \<Longrightarrow>
           gid (G ! j) \<in> set (connectedTo (fst R ! i)) \<and>
           gid (G ! i) \<in> set (connectedTo (fst R ! j))"
proof -
  define a where "a = gid (G ! i)"
  define b where "b = gid (G ! j)"
  define pre where "pre = takeWhile (\<lambda>(gear1, gear2, distance).
                         \<not> (gid gear1 = gid (G ! i) \<and> gid gear2 = gid (G ! j)))
                   (potentialConnections G)"
  define c where "c = (G ! i, G ! j, currentDistance (G ! i) (G ! j))"
  from candidate_split[OF dist ij range] obtain post where
    split: "potentialConnections G = pre @ c # post"
    and others: "\<forall>(x, y, d)\<in>set pre \<union> set post.
                \<not> (gid x = a \<and> gid y = b) \<and> \<not> (gid x = b \<and> gid y = a)"
    unfolding pre_def c_def a_def b_def by blast
  from others have pre_o: "\<forall>(x, y, d)\<in>set pre. \<not> (gid x = a \<and> gid y = b) \<and> \<not> (gid x = b \<and> gid y = a)"
    and post_o: "\<forall>(x, y, d)\<in>set post. \<not> (gid x = a \<and> gid y = b) \<and> \<not> (gid x = b \<and> gid y = a)"
    and pre_o': "\<forall>(x, y, d)\<in>set pre. \<not> (gid x = b \<and> gid y = a) \<and> \<not> (gid x = a \<and> gid y = b)"
    and post_o': "\<forall>(x, y, d)\<in>set post. \<not> (gid x = b \<and> gid y = a) \<and> \<not> (gid x = a \<and> gid y = b)"
    by auto
  have i: "i < length G" using ij by simp
  have ab: "a \<noteq> b"
    unfolding a_def b_def using dist ij
    by (metis i length_map nat_neq_iff nth_eq_iff_index_eq nth_map)
  define jam0 where "jam0 = snd (make_connections pre G None)"
  have pre_run: "make_connections pre G None = (cur, jam0)"
    by (simp add: cur pre_def jam0_def)
  have Rrun: "R = make_connections (c # post) cur jam0"
    unfolding R split by (simp add: make_connections_append pre_run)
  have idsR: "map gid (fst R) = map gid G"
    unfolding R by (rule same_but_connections_ids[OF make_connections_frame])
  have idscur: "map gid cur = map gid G"
    unfolding cur by (rule same_but_connections_ids[OF make_connections_frame])
  have lenR: "length (fst R) = length G" using idsR by (metis length_map)
  have distR: "distinct (map gid (fst R))" using dist idsR by simp
  have gidR: "gid (fst R ! i) = a" "gid (fst R ! j) = b"
    using idsR ij i lenR unfolding a_def b_def by (metis nth_map)+
  have adjR: "adjacent (fst R) a = connectedTo (fst R ! i)"
    "adjacent (fst R) b = connectedTo (fst R ! j)"
    using adjacent_nth[OF distR, of i] adjacent_nth[OF distR, of j] ij i lenR gidR by simp_all
  have "G ! i \<in> set G" "G ! j \<in> set G" using ij i by simp_all
  then have adjG: "adjacent G a = []" "adjacent G b = []"
    using adjacent_nth[OF dist i] adjacent_nth[OF dist ij(2)] empty
    by (simp_all add: a_def b_def)
  have in_cur: "lookup_gear cur a \<noteq> None" "lookup_gear cur b \<noteq> None"
  proof -
    have "gid ` set cur = gid ` set G" using idscur by (metis set_map)
    moreover have "a \<in> gid ` set G" "b \<in> gid ` set G"
      using \<open>G ! i \<in> set G\<close> \<open>G ! j \<in> set G\<close> by (auto simp: a_def b_def)
    ultimately show "lookup_gear cur a \<noteq> None" "lookup_gear cur b \<noteq> None"
      by (simp_all add: lookup_gear_None_iff)
  qed
  have before: "b \<notin> set (adjacent cur a)" "a \<notin> set (adjacent cur b)"
    using make_connections_keeps_pair[OF pre_o, of G None]
      make_connections_keeps_pair[OF pre_o', of G None] adjG
    by (simp_all add: pre_run)
  have step: "make_connections (c # post) cur jam0 =
           (if \<exists>n. shortest_path cur a b n \<and> odd (n + 1)
            then make_connections post cur (if jam0 = None then Some (a, b) else jam0)
            else make_connections post (connectGears a b cur) jam0)"
    unfolding c_def a_def b_def
    by (rule make_connections_step[OF compat nov]) (use ab in \<open>simp add: a_def b_def\<close>)
  {
    assume jam: "\<exists>n. shortest_path cur (gid (G ! i)) (gid (G ! j)) n \<and> odd (n + 1)"
    then have jam': "\<exists>n. shortest_path cur a b n \<and> odd (n + 1)" by (simp add: a_def b_def)
    define jam1 where "jam1 = (if jam0 = None then Some (a, b) else jam0)"
    have jam1: "jam1 \<noteq> None" by (simp add: jam1_def)
    have R': "R = make_connections post cur jam1"
      unfolding Rrun step jam1_def using jam' by (simp only: if_True)
    have "b \<notin> set (adjacent (fst R) a)" "a \<notin> set (adjacent (fst R) b)"
      unfolding R' using make_connections_keeps_pair[OF post_o, of cur jam1]
        make_connections_keeps_pair[OF post_o', of cur jam1] before
      by simp_all
    moreover have "snd R = jam1"
      unfolding R' by (rule make_connections_keeps_jamming[OF jam1])
    ultimately show "gid (G ! j) \<notin> set (connectedTo (fst R ! i)) \<and>
           gid (G ! i) \<notin> set (connectedTo (fst R ! j)) \<and> snd R \<noteq> None"
      using adjR jam1 by (simp add: a_def b_def)
  }
  {
    assume ok: "\<not> (\<exists>n. shortest_path cur (gid (G ! i)) (gid (G ! j)) n \<and> odd (n + 1))"
    then have ok': "\<not> (\<exists>n. shortest_path cur a b n \<and> odd (n + 1))" by (simp add: a_def b_def)
    have R': "R = make_connections post (connectGears a b cur) jam0"
      unfolding Rrun step using ok' by (simp only: if_False)
    have "b \<in> set (adjacent (fst R) a)" "a \<in> set (adjacent (fst R) b)"
      unfolding R' using make_connections_keeps_pair[OF post_o, of "connectGears a b cur" jam0]
        make_connections_keeps_pair[OF post_o', of "connectGears a b cur" jam0]
        connectGears_adds_edge[OF in_cur]
      by simp_all
    then show "gid (G ! j) \<in> set (connectedTo (fst R ! i)) \<and>
           gid (G ! i) \<in> set (connectedTo (fst R ! j))"
      using adjR by (simp add: a_def b_def)
  }
qed

lemma surface_gear_connectedTo:
  "connectedTo (surface_gear selected overlap jamming g) = connectedTo g"
  by (simp add: surface_gear_def split: option.splits)

lemma rebuild_start_geometry: "list_all2 same_geometry gs (rebuild_start gs)"
  unfolding rebuild_start_def clear_connections_def list_all2_map2
  by (rule list_all2_mono[OF clears_geometry]) (simp add: same_geometry_def)

lemma rebuild_graph_start:
  "rebuild_graph (clear_moved_away (clear_position_errors gs)) =
     make_connections (potentialConnections (rebuild_start gs)) (rebuild_start gs) None"
  by (simp add: rebuild_graph_def rebuild_start_def)

lemma rebuild_jamming_flagged:
  assumes wf: "flags_wf (gears s)"
    and jam: "snd (rebuild_graph (clear_moved_away (clear_position_errors (gears s)))) \<noteq> None"
  shows "\<exists>g\<in>set (gears (updateConnections s)). jammingError g \<or> overlapError g"
proof -
  let ?B = "clear_moved_away (clear_position_errors (gears s))"
  let ?F = "gears (updateConnections s)"
  let ?ov = "first_overlap (clear_connections ?B)"
  have idsF: "gid ` set ?F = gid ` set (gears s)"
    using same_geometry_ids[OF updateConnections_geometry[of s]] by (metis set_map)
  have idsB: "gid ` set ?B = gid ` set (gears s)"
    using same_geometry_ids[OF clears_geometry[of "gears s"]] by (metis set_map)
  show ?thesis
  proof (cases ?ov)
    case (Some pair)
    obtain x y where pair: "pair = (x, y)" by (cases pair)
    from first_overlap_Some[OF Some[unfolded pair]] idsB
    have "x \<in> gid ` set (gears s)" "y \<in> gid ` set (gears s)"
      by (auto simp: clear_connections_def)
    with error_gear_fst[of "selectedGear s" x y] pair idsF
    have "fst (error_gear (selectedGear s) pair) \<in> gid ` set ?F" by auto
    then obtain g where g: "g \<in> set ?F" "gid g = fst (error_gear (selectedGear s) pair)"
      by auto
    from rebuild_flags(1)[OF wf g(1)] Some g(2) have "overlapError g" by simp
    with g(1) show ?thesis by blast
  next
    case None
    from jam obtain pair where Some: "snd (rebuild_graph ?B) = Some pair" by auto
    obtain x y where pair: "pair = (x, y)" by (cases pair)
    from rebuild_jamming_pair[OF Some[unfolded pair]] idsB
    have "x \<in> gid ` set (gears s)" "y \<in> gid ` set (gears s)" by simp_all
    with error_gear_fst[of "selectedGear s" x y] pair idsF
    have "fst (error_gear (selectedGear s) pair) \<in> gid ` set ?F" by auto
    then obtain g where g: "g \<in> set ?F" "gid g = fst (error_gear (selectedGear s) pair)"
      by auto
    from rebuild_flags(2)[OF wf g(1)] None Some g(2) have "jammingError g" by simp
    with g(1) show ?thesis by blast
  qed
qed


text \<open>
  C1 as stated: for any two module-compatible gears within meshing range the engine
  refuses the connection as jamming exactly when the path found by the breadth-first
  search closes an odd cycle, and adds the edge when the cycle is even. A pair can be
  within \<^verbatim>\<open>meshThreshold\<close> of the ideal distance and overlap at the same time (ideal
  distance below 30); the loop skips such a pair before the jamming test. In the
  rectangle with 21, 23, 24 and 20 teeth the rebuild connects 1--2, 3--4 and 1--4;
  gears 2 and 3 are compatible and 2.5 inside their ideal distance 23.5, the path
  2--1--4--3 exists, also in the graph on which the rebuild tries the pair, and the
  search reports an even cycle, yet trying the pair on this registry adds no edge and
  the rebuild leaves the two gears unconnected, because 21 is below 0.9 * 23.5.
\<close>

theorem C1_overlapping_pair_counterexample:
  "map (\<lambda>g. (gid g, connectedTo g)) (gears (rectangle_scene 21 23 24 20))
     = [(1, [2, 4]), (2, [1]), (3, [4]), (4, [3, 1])]
   \<and> areGearsCompatible (gears (rectangle_scene 21 23 24 20) ! 1)
        (gears (rectangle_scene 21 23 24 20) ! 2)
   \<and> \<bar>currentDistance (gears (rectangle_scene 21 23 24 20) ! 1)
        (gears (rectangle_scene 21 23 24 20) ! 2)
      - idealDistance (gears (rectangle_scene 21 23 24 20) ! 1)
        (gears (rectangle_scene 21 23 24 20) ! 2)\<bar> < 3
   \<and> checkGearsOverlap (gears (rectangle_scene 21 23 24 20) ! 1)
        (gears (rectangle_scene 21 23 24 20) ! 2)
   \<and> map connectedTo (graph_before (gears (rectangle_scene 21 23 24 20)) 2 3)
       = [[2, 4], [1], [4], [3, 1]]
   \<and> map connectedTo (gears (updateConnections (rectangle_scene 21 23 24 20)))
       = [[2, 4], [1], [4], [3, 1]]
   \<and> walk (gears (rectangle_scene 21 23 24 20)) 2 3 3
   \<and> \<not> wouldCauseJamming (gears (rectangle_scene 21 23 24 20)) 2 3
   \<and> make_connections
        [(gears (rectangle_scene 21 23 24 20) ! 1, gears (rectangle_scene 21 23 24 20) ! 2, 21)]
        (gears (rectangle_scene 21 23 24 20)) None
       = (gears (rectangle_scene 21 23 24 20), None)"
proof -
  let ?gs = "gears (rectangle_scene 21 23 24 20)"
  have adj: "1 \<in> set (adjacent ?gs 2)" "4 \<in> set (adjacent ?gs 1)" "3 \<in> set (adjacent ?gs 4)"
    by (simp_all add: rect_eval)
  have "walk ?gs 2 (Suc 0) 1" by (rule walk_step[OF walk_refl adj(1)])
  then have "walk ?gs 2 (Suc (Suc 0)) 4" by (rule walk_step[OF _ adj(2)])
  then have "walk ?gs 2 (Suc (Suc (Suc 0))) 3" by (rule walk_step[OF _ adj(3)])
  then have "walk ?gs 2 3 3" by (simp add: numeral_3_eq_3)
  moreover have "map (\<lambda>g. (gid g, connectedTo g)) ?gs
     = [(1, [2, 4]), (2, [1]), (3, [4]), (4, [3, 1])]"
    "areGearsCompatible (?gs ! 1) (?gs ! 2)"
    "\<bar>currentDistance (?gs ! 1) (?gs ! 2) - idealDistance (?gs ! 1) (?gs ! 2)\<bar> < 3"
    "\<not> wouldCauseJamming ?gs 2 3"
    "make_connections [(?gs ! 1, ?gs ! 2, 21)] ?gs None = (?gs, None)"
    "checkGearsOverlap (?gs ! 1) (?gs ! 2)"
    "map connectedTo (gears (updateConnections (rectangle_scene 21 23 24 20)))
       = [[2, 4], [1], [4], [3, 1]]"
    by (simp_all add: rect_eval)
  moreover have "map connectedTo (graph_before ?gs 2 3) = [[2, 4], [1], [4], [3, 1]]"
    by (simp add: graph_before_def rebuild_start_def rect_eval)
  ultimately show ?thesis by blast
qed

text \<open>
  C1, amended: for two gears of the registry that are module-compatible, within
  \<^verbatim>\<open>meshThreshold\<close> of their ideal distance and do not overlap, the rebuild tries the
  pair as a candidate, on the graph built from the candidates sorted before it. It
  refuses the connection exactly when a path exists between the two gears in that
  graph and the shortest one (the one the breadth-first search finds) closes an odd
  cycle, that is its length plus one is odd: then neither gear lists the other after
  the rebuild, and the rebuild ends with an error flagged (the first jamming pair,
  unless an overlapping pair takes priority). Otherwise, with an even
  cycle or no path, both gears list each other in \<^verbatim>\<open>connectedTo\<close> after the rebuild.
  Three gears with 1--3 and 2--3 connected: 1--2 is refused. Four gears with 1--2,
  3--4 and 1--4 connected: 2--3 is accepted.
\<close>

theorem C1_jamming_decision:
  assumes wf: "flags_wf (gears s)" and dist: "distinct (map gid (gears s))"
    and ij: "i < j" "j < length (gears s)"
    and compat: "areGearsCompatible (gears s ! i) (gears s ! j)"
    and nov: "\<not> checkGearsOverlap (gears s ! i) (gears s ! j)"
    and range: "\<bar>currentDistance (gears s ! i) (gears s ! j)
                 - idealDistance (gears s ! i) (gears s ! j)\<bar> < 3"
  shows "(\<exists>post. potentialConnections (rebuild_start (gears s)) =
            takeWhile (\<lambda>(gear1, gear2, distance).
                         \<not> (gid gear1 = gid (gears s ! i) \<and> gid gear2 = gid (gears s ! j)))
              (potentialConnections (rebuild_start (gears s)))
            @ (rebuild_start (gears s) ! i, rebuild_start (gears s) ! j,
               currentDistance (gears s ! i) (gears s ! j)) # post)
       \<and> gid (gears (updateConnections s) ! i) = gid (gears s ! i)
       \<and> gid (gears (updateConnections s) ! j) = gid (gears s ! j)
       \<and> (wouldCauseJamming (graph_before (gears s) (gid (gears s ! i)) (gid (gears s ! j)))
              (gid (gears s ! i)) (gid (gears s ! j))
            \<longleftrightarrow> (\<exists>n. shortest_path
                        (graph_before (gears s) (gid (gears s ! i)) (gid (gears s ! j)))
                        (gid (gears s ! i)) (gid (gears s ! j)) n \<and> odd (n + 1)))
       \<and> ((\<exists>n. shortest_path (graph_before (gears s) (gid (gears s ! i)) (gid (gears s ! j)))
                  (gid (gears s ! i)) (gid (gears s ! j)) n \<and> odd (n + 1)) \<longrightarrow>
            gid (gears s ! j) \<notin> set (connectedTo (gears (updateConnections s) ! i))
          \<and> gid (gears s ! i) \<notin> set (connectedTo (gears (updateConnections s) ! j))
          \<and> (\<exists>g\<in>set (gears (updateConnections s)). jammingError g \<or> overlapError g))
       \<and> (\<not> (\<exists>n. shortest_path (graph_before (gears s) (gid (gears s ! i)) (gid (gears s ! j)))
                  (gid (gears s ! i)) (gid (gears s ! j)) n \<and> odd (n + 1)) \<longrightarrow>
            gid (gears s ! j) \<in> set (connectedTo (gears (updateConnections s) ! i))
          \<and> gid (gears s ! i) \<in> set (connectedTo (gears (updateConnections s) ! j)))"
proof -
  let ?G = "rebuild_start (gears s)"
  let ?B = "clear_moved_away (clear_position_errors (gears s))"
  let ?F = "gears (updateConnections s)"
  define R where "R = rebuild_graph ?B"
  have geo: "list_all2 same_geometry (gears s) ?G" by (rule rebuild_start_geometry)
  have len: "length ?G = length (gears s)" using list_all2_lengthD[OF geo] by simp
  have i: "i < length (gears s)" using ij by simp
  have gi: "same_geometry (gears s ! i) (?G ! i)" and gj: "same_geometry (gears s ! j) (?G ! j)"
    using list_all2_nthD[OF geo i] list_all2_nthD[OF geo ij(2)] by simp_all
  then have ids: "gid (?G ! i) = gid (gears s ! i)" "gid (?G ! j) = gid (gears s ! j)"
    and cd: "currentDistance (?G ! i) (?G ! j) = currentDistance (gears s ! i) (gears s ! j)"
    by (simp_all add: same_geometry_def currentDistance_def)
  have distG: "distinct (map gid ?G)" using dist same_geometry_ids[OF geo] by simp
  have ijG: "i < j" "j < length ?G" using ij len by simp_all
  have rangeG: "\<bar>currentDistance (?G ! i) (?G ! j) - idealDistance (?G ! i) (?G ! j)\<bar> < 3"
    using range in_range_geometry[OF gi gj] by simp
  have compatG: "areGearsCompatible (?G ! i) (?G ! j)"
    using compat areGearsCompatible_geometry[OF gi gj] by simp
  have novG: "\<not> checkGearsOverlap (?G ! i) (?G ! j)"
    using nov checkGearsOverlap_geometry[OF gi gj] by simp
  have empty: "\<forall>g\<in>set ?G. connectedTo g = []"
    by (simp add: rebuild_start_def clear_connections_def)
  have cur: "graph_before (gears s) (gid (gears s ! i)) (gid (gears s ! j)) =
        fst (make_connections
                (takeWhile (\<lambda>(gear1, gear2, distance).
                         \<not> (gid gear1 = gid (?G ! i) \<and> gid gear2 = gid (?G ! j)))
                   (potentialConnections ?G)) ?G None)"
    by (simp add: graph_before_def ids)
  have R: "R = make_connections (potentialConnections ?G) ?G None"
    unfolding R_def by (rule rebuild_graph_start)
  note pair = rebuild_pair[OF distG ijG rangeG compatG novG empty cur R, unfolded ids]
  have F: "?F = map (surface_gear (selectedGear s) (first_overlap (clear_connections ?B)) (snd R))
                  (fst R)"
    by (simp add: updateConnections_gears Let_def R_def)
  have lenF: "length ?F = length (gears s)" by (rule length_updateConnections)
  then have lenR: "length (fst R) = length (gears s)" using F by (metis length_map)
  have conn: "connectedTo (?F ! i) = connectedTo (fst R ! i)"
    "connectedTo (?F ! j) = connectedTo (fst R ! j)"
    unfolding F using i ij(2) lenR by (simp_all add: surface_gear_connectedTo)
  have idsF: "gid (?F ! i) = gid (gears s ! i)" "gid (?F ! j) = gid (gears s ! j)"
    using list_all2_nthD[OF updateConnections_geometry[of s] i]
      list_all2_nthD[OF updateConnections_geometry[of s] ij(2)]
    by (simp_all add: same_geometry_def)
  have ne: "gid (gears s ! i) \<noteq> gid (gears s ! j)"
    using dist ij i by (metis length_map nat_neq_iff nth_eq_iff_index_eq nth_map)
  have split: "\<exists>post. potentialConnections ?G =
            takeWhile (\<lambda>(gear1, gear2, distance).
                         \<not> (gid gear1 = gid (gears s ! i) \<and> gid gear2 = gid (gears s ! j)))
              (potentialConnections ?G)
            @ (?G ! i, ?G ! j, currentDistance (gears s ! i) (gears s ! j)) # post"
    using candidate_split[OF distG ijG rangeG] unfolding ids cd by blast
  have flagged: "\<exists>g\<in>set ?F. jammingError g \<or> overlapError g" if "snd R \<noteq> None"
    using rebuild_jamming_flagged[OF wf] that by (simp add: R_def)
  from split idsF wouldCauseJamming_correct[OF ne] pair flagged show ?thesis
    unfolding conn by blast
qed

theorem C1_jamming_decision_witness:
  "flags_wf (gears triangle_scene) \<and> distinct (map gid (gears triangle_scene))
   \<and> areGearsCompatible (gears triangle_scene ! 0) (gears triangle_scene ! 1)
   \<and> \<not> checkGearsOverlap (gears triangle_scene ! 0) (gears triangle_scene ! 1)
   \<and> \<bar>currentDistance (gears triangle_scene ! 0) (gears triangle_scene ! 1)
       - idealDistance (gears triangle_scene ! 0) (gears triangle_scene ! 1)\<bar> < 3
   \<and> map gid (gears triangle_scene) = [1, 2, 3]
   \<and> map connectedTo (graph_before (gears triangle_scene) 1 2) = [[3], [3], [1, 2]]
   \<and> (\<exists>n. shortest_path (graph_before (gears triangle_scene) 1 2) 1 2 n \<and> odd (n + 1))
   \<and> 2 \<notin> set (connectedTo (gears (updateConnections triangle_scene) ! 0))
   \<and> 1 \<notin> set (connectedTo (gears (updateConnections triangle_scene) ! 1))
   \<and> (\<exists>g\<in>set (gears (updateConnections triangle_scene)). jammingError g \<or> overlapError g)
   \<and> flags_wf (gears (rectangle_scene 21 21 21 21))
   \<and> distinct (map gid (gears (rectangle_scene 21 21 21 21)))
   \<and> areGearsCompatible (gears (rectangle_scene 21 21 21 21) ! 1)
        (gears (rectangle_scene 21 21 21 21) ! 2)
   \<and> \<not> checkGearsOverlap (gears (rectangle_scene 21 21 21 21) ! 1)
        (gears (rectangle_scene 21 21 21 21) ! 2)
   \<and> \<bar>currentDistance (gears (rectangle_scene 21 21 21 21) ! 1)
        (gears (rectangle_scene 21 21 21 21) ! 2)
       - idealDistance (gears (rectangle_scene 21 21 21 21) ! 1)
        (gears (rectangle_scene 21 21 21 21) ! 2)\<bar> < 3
   \<and> map gid (gears (rectangle_scene 21 21 21 21)) = [1, 2, 3, 4]
   \<and> map connectedTo (graph_before (gears (rectangle_scene 21 21 21 21)) 2 3)
       = [[2, 4], [1], [4], [3, 1]]
   \<and> \<not> (\<exists>n. shortest_path (graph_before (gears (rectangle_scene 21 21 21 21)) 2 3) 2 3 n
              \<and> odd (n + 1))
   \<and> 3 \<in> set (connectedTo (gears (updateConnections (rectangle_scene 21 21 21 21)) ! 1))
   \<and> 2 \<in> set (connectedTo (gears (updateConnections (rectangle_scene 21 21 21 21)) ! 2))"
proof -
  let ?T = "gears triangle_scene"
  let ?Q = "gears (rectangle_scene 21 21 21 21)"
  have T: "flags_wf ?T" "distinct (map gid ?T)"
    "areGearsCompatible (?T ! 0) (?T ! 1)" "\<not> checkGearsOverlap (?T ! 0) (?T ! 1)"
    "\<bar>currentDistance (?T ! 0) (?T ! 1) - idealDistance (?T ! 0) (?T ! 1)\<bar> < 3"
    "map gid ?T = [1, 2, 3]"
    by (simp_all add: flags_wf_def triangle_scene_def eval_defs distanceTo_def sqrt_841)
  have Tid: "gid (?T ! 0) = 1" "gid (?T ! 1) = 2" and Tlen: "1 < length ?T"
    using T(6) by (auto simp: map_eq_Cons_conv)
  have Tcur: "map connectedTo (graph_before ?T 1 2) = [[3], [3], [1, 2]]"
    "wouldCauseJamming (graph_before ?T 1 2) 1 2"
    by (simp_all add: graph_before_def rebuild_start_def triangle_scene_def eval_defs
        distanceTo_def sqrt_841)
  note Tinst = C1_jamming_decision[OF T(1,2) zero_less_one Tlen T(3,4,5), unfolded Tid]
  from Tinst Tcur(2)
  have Tjam: "\<exists>n. shortest_path (graph_before ?T 1 2) 1 2 n \<and> odd (n + 1)" by blast
  with Tinst
  have Tres: "2 \<notin> set (connectedTo (gears (updateConnections triangle_scene) ! 0))"
    "1 \<notin> set (connectedTo (gears (updateConnections triangle_scene) ! 1))"
    "\<exists>g\<in>set (gears (updateConnections triangle_scene)). jammingError g \<or> overlapError g"
    by blast+
  have Q: "flags_wf ?Q" "distinct (map gid ?Q)"
    "areGearsCompatible (?Q ! 1) (?Q ! 2)" "\<not> checkGearsOverlap (?Q ! 1) (?Q ! 2)"
    "\<bar>currentDistance (?Q ! 1) (?Q ! 2) - idealDistance (?Q ! 1) (?Q ! 2)\<bar> < 3"
    "map gid ?Q = [1, 2, 3, 4]"
    by (simp_all add: flags_wf_def rect_eval)
  have Qid: "gid (?Q ! 1) = 2" "gid (?Q ! 2) = 3" and Qlen: "2 < length ?Q"
    using Q(6) by (auto simp: map_eq_Cons_conv)
  have Qcur: "map connectedTo (graph_before ?Q 2 3) = [[2, 4], [1], [4], [3, 1]]"
    "\<not> wouldCauseJamming (graph_before ?Q 2 3) 2 3"
    by (simp_all add: graph_before_def rebuild_start_def rect_eval)
  have lt: "(1::nat) < 2" by simp
  note Qinst = C1_jamming_decision[OF Q(1,2) lt Qlen Q(3,4,5), unfolded Qid]
  from Qinst Qcur(2)
  have Qok: "\<not> (\<exists>n. shortest_path (graph_before ?Q 2 3) 2 3 n \<and> odd (n + 1))" by blast
  with Qinst
  have Qres: "3 \<in> set (connectedTo (gears (updateConnections (rectangle_scene 21 21 21 21)) ! 1))"
    "2 \<in> set (connectedTo (gears (updateConnections (rectangle_scene 21 21 21 21)) ! 2))"
    by blast+
  from T Tcur(1) Tjam Tres Q Qcur(1) Qok Qres show ?thesis by blast
qed

section \<open>Claims about the rebuild\<close>

text \<open>
  C5: two gears overlap exactly when the distance of their centres is below 0.9 times
  the ideal distance \<open>(pitchDiameter_A + pitchDiameter_B) / 2\<close>, whatever their modules;
  the rebuild never connects an overlapping pair; and a rebuild surfaces at most one
  overlap error, which takes priority over jamming: when some pair overlaps, exactly
  one gear carries the overlap flag afterwards and none carries the jamming flag.
  The registry is taken as the operations leave it: ids are distinct, and an error
  flag is set only together with \<^verbatim>\<open>incompatibleWith\<close>.
\<close>

theorem C5_overlap:
  assumes "flags_wf (gears s)" and "distinct (map gid (gears s))"
  shows "(checkGearsOverlap gear1 gear2 \<longleftrightarrow>
            currentDistance gear1 gear2
              < 0.9 * ((pitchDiameter (params gear1) + pitchDiameter (params gear2)) / 2))
       \<and> (\<forall>g\<in>set (gears (updateConnections s)). \<forall>h\<in>set (gears (updateConnections s)).
            checkGearsOverlap g h \<longrightarrow> gid h \<notin> set (connectedTo g))
       \<and> length (filter overlapError (gears (updateConnections s))) \<le> 1
       \<and> ((\<exists>g\<in>set (gears s). \<exists>h\<in>set (gears s). gid g \<noteq> gid h \<and> checkGearsOverlap g h) \<longrightarrow>
            length (filter overlapError (gears (updateConnections s))) = 1
          \<and> (\<forall>g\<in>set (gears (updateConnections s)). \<not> jammingError g))"
proof -
  have "checkGearsOverlap gear1 gear2 \<longleftrightarrow>
            currentDistance gear1 gear2
              < 0.9 * ((pitchDiameter (params gear1) + pitchDiameter (params gear2)) / 2)"
    by (simp add: checkGearsOverlap_def idealDistance_def Let_def mult.commute)
  moreover have "\<forall>g\<in>set (gears (updateConnections s)). \<forall>h\<in>set (gears (updateConnections s)).
            checkGearsOverlap g h \<longrightarrow> gid h \<notin> set (connectedTo g)"
  proof (intro ballI impI notI)
    fix g h
    assume "g \<in> set (gears (updateConnections s))" "h \<in> set (gears (updateConnections s))"
      and ov: "checkGearsOverlap g h" and "gid h \<in> set (connectedTo g)"
    then have "meshing g h" by (intro rebuild_edges_meshing[OF assms(2)])
    with ov show False by (simp add: meshing_def)
  qed
  ultimately show ?thesis
    using rebuild_overlap_count[OF assms] by blast
qed

theorem C5_overlap_witness:
  "flags_wf (gears (rectangle_scene 21 23 24 20))
   \<and> distinct (map gid (gears (rectangle_scene 21 23 24 20)))
   \<and> gid (gears (rectangle_scene 21 23 24 20) ! 1) \<noteq> gid (gears (rectangle_scene 21 23 24 20) ! 2)
   \<and> checkGearsOverlap (gears (rectangle_scene 21 23 24 20) ! 1)
        (gears (rectangle_scene 21 23 24 20) ! 2)
   \<and> map (\<lambda>g. (gid g, connectedTo g, overlapError g, jammingError g))
        (gears (updateConnections (rectangle_scene 21 23 24 20)))
       = [(1, [2, 4], False, False), (2, [1], True, False), (3, [4], False, False),
          (4, [3, 1], False, False)]"
proof -
  let ?s = "rectangle_scene 21 23 24 20"
  have wf: "flags_wf (gears ?s)" and d: "distinct (map gid (gears ?s))"
    by (simp_all add: flags_wf_def rect_eval)
  have rest: "gid (gears ?s ! 1) \<noteq> gid (gears ?s ! 2)"
    "checkGearsOverlap (gears ?s ! 1) (gears ?s ! 2)"
    "map (\<lambda>g. (gid g, connectedTo g, overlapError g, jammingError g))
        (gears (updateConnections ?s))
       = [(1, [2, 4], False, False), (2, [1], True, False), (3, [4], False, False),
          (4, [3, 1], False, False)]"
    by (simp_all add: rect_eval)
  from C5_overlap[OF wf d] wf d rest show ?thesis by blast
qed

text \<open>
  C6 as stated: in the rebuild a pair within \<^verbatim>\<open>meshThreshold\<close> of its ideal distance
  whose modules differ by at least 0.001 gets no edge and is flagged Incompatible.
  The rebuild only skips such a candidate; \<^verbatim>\<open>setIncompatibleState\<close> is called by the
  interactive snap alone. Two gears with modules 2 and 3 at their ideal distance 50
  are left unconnected and unflagged.
\<close>

theorem C6_no_flag_counterexample:
  "map (\<lambda>g. (gid g, module (params g), connectedTo g, incompatibleWith g, jammingError g,
              overlapError g)) (gears mismatch_scene)
     = [(1, 2, [], None, False, False), (2, 3, [], None, False, False)]
   \<and> \<bar>currentDistance (gears mismatch_scene ! 0) (gears mismatch_scene ! 1)
       - idealDistance (gears mismatch_scene ! 0) (gears mismatch_scene ! 1)\<bar> < 3"
  by (simp add: mismatch_scene_def eval_defs distanceTo_x)

text \<open>
  C6, amended: the rebuild creates no edge between two gears whose modules differ by
  at least 0.001, and it never sets a module incompatibility itself: a gear that
  carries one after the rebuild (a reference in \<^verbatim>\<open>incompatibleWith\<close> with neither the
  jamming nor the overlap flag) carried the same one before.
\<close>

theorem C6_incompatible_pairs:
  assumes "distinct (map gid (gears s))"
  shows "(\<forall>g\<in>set (gears (updateConnections s)). \<forall>h\<in>set (gears (updateConnections s)).
            0.001 \<le> \<bar>module (params g) - module (params h)\<bar> \<longrightarrow> gid h \<notin> set (connectedTo g))
       \<and> list_all2
            (\<lambda>g g'. incompatibleWith g' \<noteq> None \<and> \<not> jammingError g' \<and> \<not> overlapError g' \<longrightarrow>
               incompatibleWith g' = incompatibleWith g \<and> \<not> jammingError g \<and> \<not> overlapError g)
            (gears s) (gears (updateConnections s))"
proof -
  have "\<forall>g\<in>set (gears (updateConnections s)). \<forall>h\<in>set (gears (updateConnections s)).
            0.001 \<le> \<bar>module (params g) - module (params h)\<bar> \<longrightarrow> gid h \<notin> set (connectedTo g)"
  proof (intro ballI impI notI)
    fix g h
    assume "g \<in> set (gears (updateConnections s))" "h \<in> set (gears (updateConnections s))"
      and diff: "0.001 \<le> \<bar>module (params g) - module (params h)\<bar>"
      and "gid h \<in> set (connectedTo g)"
    then have "meshing g h" by (intro rebuild_edges_meshing[OF assms])
    with diff show False by (simp add: meshing_def areGearsCompatible_def)
  qed
  then show ?thesis
    using rebuild_keeps_or_clears_incompatibility by blast
qed

theorem C6_incompatible_pairs_witness:
  "distinct (map gid (gears mismatch_scene))
   \<and> map (\<lambda>g. (gid g, module (params g), connectedTo g)) (gears (updateConnections mismatch_scene))
       = [(1, 2, []), (2, 3, [])]
   \<and> distinct (map gid (gears flagged_mismatch_scene))
   \<and> map (\<lambda>g. (incompatibleWith g, jammingError g, overlapError g))
        (gears flagged_mismatch_scene) = [(None, False, False), (Some 1, False, False)]
   \<and> map (\<lambda>g. (incompatibleWith g, jammingError g, overlapError g))
        (gears (updateConnections flagged_mismatch_scene))
       = [(None, False, False), (Some 1, False, False)]"
proof -
  have a: "distinct (map gid (gears mismatch_scene))"
    "map (\<lambda>g. (gid g, module (params g), connectedTo g)) (gears (updateConnections mismatch_scene))
       = [(1, 2, []), (2, 3, [])]"
    by (simp_all add: mismatch_scene_def eval_defs distanceTo_x)
  have b: "distinct (map gid (gears flagged_mismatch_scene))"
    "map (\<lambda>g. (incompatibleWith g, jammingError g, overlapError g))
        (gears flagged_mismatch_scene) = [(None, False, False), (Some 1, False, False)]"
    "map (\<lambda>g. (incompatibleWith g, jammingError g, overlapError g))
        (gears (updateConnections flagged_mismatch_scene))
       = [(None, False, False), (Some 1, False, False)]"
    by (simp_all add: flagged_mismatch_scene_def setIncompatibleState_def mismatch_scene_def
        eval_defs distanceTo_x)
  from C6_incompatible_pairs[OF a(1)] C6_incompatible_pairs[OF b(1)] a b
  show ?thesis by blast
qed

text \<open>
  C8: running the rebuild twice in a row, with no position or parameter change in
  between, gives the same simulator state as running it once: the same
  \<^verbatim>\<open>connectedTo\<close> for every gear and the same error fields. The registry is taken as
  the operations leave it: an error flag is set only together with
  \<^verbatim>\<open>incompatibleWith\<close>.
\<close>

theorem C8_rebuild_idempotent:
  assumes wf: "flags_wf (gears s)"
  shows "updateConnections (updateConnections s) = updateConnections s"
proof -
  let ?E = "gears s"
  let ?A = "clear_position_errors ?E"
  let ?B = "clear_moved_away ?A"
  let ?F = "gears (updateConnections s)"
  let ?A2 = "clear_position_errors ?F"
  let ?B2 = "clear_moved_away ?A2"
  let ?sg = "surface_gear (selectedGear s) (first_overlap (clear_connections ?B))
               (snd (rebuild_graph ?B))"
  have F: "?F = map ?sg (fst (rebuild_graph ?B))"
    by (simp add: updateConnections_gears Let_def)
  have geoEF: "list_all2 same_geometry ?E ?F" by (rule updateConnections_geometry)
  have geoAA2: "list_all2 same_geometry ?A ?A2"
    by (rule list_same_geometry_trans[OF list_same_geometry_sym[OF clear_position_errors_geometry]
          list_same_geometry_trans[OF geoEF clear_position_errors_geometry]])
  have geoBB2: "list_all2 same_geometry ?B ?B2"
    by (rule list_same_geometry_trans[OF list_same_geometry_sym[OF clears_geometry]
          list_same_geometry_trans[OF geoEF clears_geometry]])
  from rebuild_graph_geometry[OF geoBB2]
  have same_jam: "snd (rebuild_graph ?B2) = snd (rebuild_graph ?B)"
    and skel: "list_all2 same_skeleton (fst (rebuild_graph ?B)) (fst (rebuild_graph ?B2))"
    and same_ov: "first_overlap (clear_connections ?B2) = first_overlap (clear_connections ?B)"
    by simp_all
  have F2: "gears (updateConnections (updateConnections s)) = map ?sg (fst (rebuild_graph ?B2))"
    by (simp add: updateConnections_gears[of "updateConnections s"] Let_def
        updateConnections_selectedGear same_jam same_ov)
  have len: "length ?B = length ?E" "length ?A = length ?E" "length ?F = length ?E"
    "length ?A2 = length ?E" "length ?B2 = length ?E"
    "length (fst (rebuild_graph ?B)) = length ?E"
    "length (fst (rebuild_graph ?B2)) = length ?E"
    using list_all2_lengthD[OF rebuild_graph_frame[of ?B]]
      list_all2_lengthD[OF rebuild_graph_frame[of ?B2]] list_all2_lengthD[OF geoEF]
    by (simp_all add: clear_moved_away_map clear_position_errors_map)
  have "map ?sg (fst (rebuild_graph ?B2)) = map ?sg (fst (rebuild_graph ?B))"
  proof (rule nth_equalityI)
    show "length (map ?sg (fst (rebuild_graph ?B2))) = length (map ?sg (fst (rebuild_graph ?B)))"
      by (simp add: len)
  next
    fix k assume "k < length (map ?sg (fst (rebuild_graph ?B2)))"
    then have k: "k < length ?E" by (simp add: len)
    define b where "b = ?B ! k"
    define c where "c = connectedTo (fst (rebuild_graph ?B) ! k)"
    have g4: "fst (rebuild_graph ?B) ! k = b\<lparr>connectedTo := c\<rparr>"
      using list_all2_nthD[OF rebuild_graph_frame[of ?B], of k] k
      by (simp add: len b_def c_def)
    have "connectedTo (fst (rebuild_graph ?B2) ! k) = c"
      using list_all2_nthD[OF skel, of k] k
      by (simp add: len c_def same_skeleton_def)
    then have g4': "fst (rebuild_graph ?B2) ! k = (?B2 ! k)\<lparr>connectedTo := c\<rparr>"
      using list_all2_nthD[OF rebuild_graph_frame[of ?B2], of k] k
      by (simp add: len)
    have Fk: "?F ! k = ?sg (b\<lparr>connectedTo := c\<rparr>)"
      using k g4 by (simp add: F len)
    have B2k: "?B2 ! k = clear_if_moved_away ?A2 (clear_position_error (?F ! k))"
      using k by (simp add: clear_moved_away_map clear_position_errors_map len)
    have Ak: "?A ! k = clear_position_error (?E ! k)"
      and bk: "b = clear_if_moved_away ?A (?A ! k)"
      using k by (simp_all add: b_def clear_moved_away_map clear_position_errors_map len)
    have "?E ! k \<in> set ?E" using k by simp
    with wf have "jammingError (?E ! k) \<or> overlapError (?E ! k)
        \<longrightarrow> incompatibleWith (?E ! k) \<noteq> None"
      by (simp add: flags_wf_def)
    then have "\<not> jammingError (?A ! k)" "\<not> overlapError (?A ! k)"
      unfolding Ak by (rule clear_position_error_flags)+
    then have flags: "\<not> jammingError b" "\<not> overlapError b" and st: "settled ?A b"
      unfolding bk by (rule clear_if_moved_away_flags)+
    have "settled ?A2 b = settled ?A b"
      by (rule settled_geometry[OF geoAA2 same_geometry_refl refl])
    with st have st2: "settled ?A2 b" by simp
    have "?sg ((?B2 ! k)\<lparr>connectedTo := c\<rparr>) = ?sg (b\<lparr>connectedTo := c\<rparr>)"
      unfolding B2k Fk
      by (rule rebuild_gear_idem[OF flags]) (simp add: st2)
    then show "map ?sg (fst (rebuild_graph ?B2)) ! k = map ?sg (fst (rebuild_graph ?B)) ! k"
      using k g4 g4' by (simp add: len)
  qed
  with F F2 have "gears (updateConnections (updateConnections s)) = ?F" by simp
  then show ?thesis
    using updateConnections_other_fields[of "updateConnections s"] by simp
qed

theorem C8_rebuild_idempotent_witness:
  "flags_wf (gears triangle_scene)
   \<and> map (\<lambda>g. (gid g, connectedTo g, incompatibleWith g, jammingError g))
        (gears (updateConnections triangle_scene))
       = [(1, [3], Some 2, True), (2, [3], None, False), (3, [1, 2], None, False)]
   \<and> updateConnections (updateConnections triangle_scene) = updateConnections triangle_scene"
proof -
  have wf: "flags_wf (gears triangle_scene)"
    by (simp add: flags_wf_def triangle_scene_def eval_defs distanceTo_def sqrt_841)
  have "map (\<lambda>g. (gid g, connectedTo g, incompatibleWith g, jammingError g))
        (gears (updateConnections triangle_scene))
       = [(1, [3], Some 2, True), (2, [3], None, False), (3, [1, 2], None, False)]"
    by (simp add: triangle_scene_def eval_defs distanceTo_def sqrt_841)
  with C8_rebuild_idempotent[OF wf] wf show ?thesis by blast
qed

end
